theory Spec2Isabelle
  imports Main
begin

section \<open>The Enigma core: alphabet, rotors, plugboard, reflector, machine\<close>

text \<open>
  A shallow embedding of the rotor machine (the classes \<^verbatim>\<open>Rotor\<close> and \<^verbatim>\<open>Enigma\<close>, the
  function \<^verbatim>\<open>plugboardSwap\<close> and the tables beside them). A symbol travelling along
  the signal path is a JavaScript value that is either a one-character string or
  \<^verbatim>\<open>undefined\<close> (what an out-of-range string index returns); it is modelled as
  \<open>char option\<close> with \<open>None\<close> for \<^verbatim>\<open>undefined\<close>. Numbers are the integers of the source
  (positions, ring settings, indices), modelled as \<open>int\<close>. A thrown \<^verbatim>\<open>TypeError\<close> is a value
  of a sum type.
\<close>

subsection \<open>Constants and arithmetic\<close>

datatype js_error = TypeError

type_synonym symbol = "char option"

definition alphabet :: string where
  "alphabet = ''ABCDEFGHIJKLMNOPQRSTUVWXYZ''"

text \<open>JavaScript's \<^verbatim>\<open>%\<close> truncates towards zero: the result has the sign of the dividend.\<close>

definition js_rem :: "int \<Rightarrow> int \<Rightarrow> int" where
  "js_rem n m = (if n < 0 then - ((- n) mod \<bar>m\<bar>) else n mod \<bar>m\<bar>)"

text \<open>
  \<^verbatim>\<open>function mod(n, m) { return ((n % m) + m) % m; }\<close> Every call in the source passes
  26 for \<open>m\<close>; a zero divisor, where JavaScript gives \<^verbatim>\<open>NaN\<close>, does not occur.
\<close>

definition mod_js :: "int \<Rightarrow> int \<Rightarrow> int" where
  "mod_js n m = js_rem (js_rem n m + m) m"

text \<open>\<^verbatim>\<open>s[i]\<close>: the character at index \<open>i\<close>, \<^verbatim>\<open>undefined\<close> outside the string.\<close>

definition str_at :: "string \<Rightarrow> int \<Rightarrow> symbol" where
  "str_at s i = (if 0 \<le> i \<and> i < int (length s) then Some (s ! nat i) else None)"

text \<open>\<^verbatim>\<open>s.indexOf(c)\<close> for a one-character string \<open>c\<close>: the first index, or \<open>-1\<close>.\<close>

fun indexOf :: "string \<Rightarrow> char \<Rightarrow> int" where
  "indexOf [] c = - 1"
| "indexOf (x # xs) c =
     (if x = c then 0 else (let i = indexOf xs c in if i < 0 then - 1 else i + 1))"

text \<open>
  \<^verbatim>\<open>s.indexOf(v)\<close> for a symbol: \<^verbatim>\<open>undefined\<close> is converted to the string
  \<^verbatim>\<open>"undefined"\<close>, which occurs neither in the alphabet nor in a catalog wiring, so the
  result is \<open>-1\<close>.
\<close>

definition indexOfV :: "string \<Rightarrow> symbol \<Rightarrow> int" where
  "indexOfV s v = (case v of None \<Rightarrow> - 1 | Some c \<Rightarrow> indexOf s c)"

record RotorSpec =
  spec_wiring :: string
  spec_notch :: char

definition ROTORS :: "RotorSpec list" where
  "ROTORS =
    [\<lparr>spec_wiring = ''EKMFLGDQVZNTOWYHXUSPAIBRCJ'', spec_notch = CHR ''Q''\<rparr>,
     \<lparr>spec_wiring = ''AJDKSIRUXBLHWTMCQGZNPYFVOE'', spec_notch = CHR ''E''\<rparr>,
     \<lparr>spec_wiring = ''BDFHJLCPRTXVZNYEIWGAKMUSQO'', spec_notch = CHR ''V''\<rparr>]"

definition REFLECTOR :: string where
  "REFLECTOR = ''YRUHQSLDPXNGOKMIEBFZCWVJAT''"

subsection \<open>Plugboard\<close>

text \<open>
  \<^verbatim>\<open>for (const [a, b] of pairs) { if (c === a) return b; if (c === b) return a; } return c;\<close>
  The first pair that contains \<open>c\<close> decides. \<^verbatim>\<open>undefined\<close> equals no letter.
\<close>

fun plugboardSwap :: "symbol \<Rightarrow> (char \<times> char) list \<Rightarrow> symbol" where
  "plugboardSwap c [] = c"
| "plugboardSwap c ((a, b) # pairs) =
     (if c = Some a then Some b
      else if c = Some b then Some a
      else plugboardSwap c pairs)"

subsection \<open>Rotor\<close>

record Rotor =
  wiring :: string
  notch :: char
  ringSetting :: int
  position :: int

definition step :: "Rotor \<Rightarrow> Rotor" where
  "step r = r\<lparr>position := mod_js (position r + 1) 26\<rparr>"

definition atNotch :: "Rotor \<Rightarrow> bool" where
  "atNotch r = (str_at alphabet (position r) = Some (notch r))"

definition forward :: "Rotor \<Rightarrow> symbol \<Rightarrow> symbol" where
  "forward r c =
     (let idx = mod_js (indexOfV alphabet c + position r - ringSetting r) 26
      in str_at (wiring r) idx)"

definition backward :: "Rotor \<Rightarrow> symbol \<Rightarrow> symbol" where
  "backward r c =
     (let idx = indexOfV (wiring r) c
      in str_at alphabet (mod_js (idx - position r + ringSetting r) 26))"

subsection \<open>Machine\<close>

record Enigma =
  rotors :: "Rotor list"
  plugboardPairs :: "(char \<times> char) list"

text \<open>
  \<^verbatim>\<open>xs[i]\<close> passed to a parameter with default \<open>0\<close>: a missing element is \<^verbatim>\<open>undefined\<close>,
  and the \<^verbatim>\<open>Rotor\<close> constructor then takes the default.
\<close>

definition arg_or_zero :: "int list \<Rightarrow> nat \<Rightarrow> int" where
  "arg_or_zero xs i = (if i < length xs then xs ! i else 0)"

definition in_catalog :: "int \<Rightarrow> bool" where
  "in_catalog ident = (0 \<le> ident \<and> ident < int (length ROTORS))"

definition new_Rotor :: "int list \<Rightarrow> int list \<Rightarrow> int \<Rightarrow> nat \<Rightarrow> Rotor" where
  "new_Rotor rotorPositions ringSettings ident i =
     \<lparr>wiring = spec_wiring (ROTORS ! nat ident),
      notch = spec_notch (ROTORS ! nat ident),
      ringSetting = arg_or_zero ringSettings i,
      position = arg_or_zero rotorPositions i\<rparr>"

text \<open>
  The constructor maps over \<^verbatim>\<open>rotorIDs\<close>; \<^verbatim>\<open>ROTORS[id]\<close> is \<^verbatim>\<open>undefined\<close> for an
  identifier outside the catalog, and reading \<^verbatim>\<open>.wiring\<close> of it throws a
  \<^verbatim>\<open>TypeError\<close>. Nothing else is checked.
\<close>

definition new_Enigma ::
  "int list \<Rightarrow> int list \<Rightarrow> int list \<Rightarrow> (char \<times> char) list \<Rightarrow> js_error + Enigma" where
  "new_Enigma rotorIDs rotorPositions ringSettings pairs =
     (if list_all in_catalog rotorIDs
      then Inr \<lparr>rotors = map (\<lambda>(ident, i). new_Rotor rotorPositions ringSettings ident i)
                           (zip rotorIDs [0 ..< length rotorIDs]),
                plugboardPairs = pairs\<rparr>
      else Inl TypeError)"

text \<open>
  \<^verbatim>\<open>stepRotors\<close>: both notch tests are read first; \<^verbatim>\<open>this.rotors[1]\<close> or
  \<^verbatim>\<open>this.rotors[2]\<close> is \<^verbatim>\<open>undefined\<close> when fewer than three rotors exist, and calling
  \<^verbatim>\<open>atNotch\<close> on it throws before anything is mutated. The updates then happen in the
  order of the source.
\<close>

definition stepRotors :: "Enigma \<Rightarrow> js_error + Enigma" where
  "stepRotors e =
     (let rs = rotors e in
      if length rs < 3 then Inl TypeError
      else
        let middleAtNotch = atNotch (rs ! 1);
            rightAtNotch = atNotch (rs ! 2);
            rs1 = (if middleAtNotch
                   then (let t = rs[0 := step (rs ! 0)] in t[1 := step (t ! 1)])
                   else rs);
            rs2 = (if rightAtNotch then rs1[1 := step (rs1 ! 1)] else rs1);
            rs3 = rs2[2 := step (rs2 ! 2)]
        in Inr (e\<lparr>rotors := rs3\<rparr>))"

definition reflect :: "symbol \<Rightarrow> symbol" where
  "reflect c = str_at REFLECTOR (indexOfV alphabet c)"

text \<open>The forward loop runs from the last rotor down to the first, the backward loop up.\<close>

definition forwardPass :: "Rotor list \<Rightarrow> symbol \<Rightarrow> symbol" where
  "forwardPass rs c = foldr forward rs c"

definition backwardPass :: "Rotor list \<Rightarrow> symbol \<Rightarrow> symbol" where
  "backwardPass rs c = fold backward rs c"

definition signalPath :: "Enigma \<Rightarrow> symbol \<Rightarrow> symbol" where
  "signalPath e c =
     plugboardSwap
       (backwardPass (rotors e)
          (reflect (forwardPass (rotors e) (plugboardSwap c (plugboardPairs e)))))
       (plugboardPairs e)"

text \<open>
  \<^verbatim>\<open>encryptChar\<close> on one code unit \<open>c\<close>, as \<^verbatim>\<open>process\<close> calls it: a character outside
  the alphabet is returned at once; otherwise the rotors step and the signal runs
  through plugboard, rotors right to left, reflector, rotors left to right, plugboard.
\<close>

definition encryptChar :: "Enigma \<Rightarrow> char \<Rightarrow> js_error + (symbol \<times> Enigma)" where
  "encryptChar e c =
     (if c \<notin> set alphabet then Inr (Some c, e)
      else case stepRotors e of
             Inl err \<Rightarrow> Inl err
           | Inr e' \<Rightarrow> Inr (signalPath e' (Some c), e'))"

text \<open>
  \<^verbatim>\<open>toUpperCase\<close>. A \<open>char\<close> stands for the UTF-16 code unit of the same number, so
  text here is text of code units below 256. On these the conversion works code unit
  by code unit: among the ASCII code units the letters a to z go to the letters A to Z
  at the same index and every other one stays (\<open>toUpperChar\<close>); above them, the sharp
  s (223) becomes the two letters SS, the lowercase letters 224 to 254 other than the
  division sign (247) move down by 32, and the rest stay. The micro sign (181) and the
  y with diaeresis (255) have an uppercase above 255, which is not a letter of the
  alphabet either; they are left in place here, so the machine and the positions of
  the other characters are those of the source and only that one output code unit is
  outside the type. No statement below depends on it.
\<close>

definition lowercase :: string where
  "lowercase = ''abcdefghijklmnopqrstuvwxyz''"

definition toUpperChar :: "char \<Rightarrow> char" where
  "toUpperChar c =
     (let i = indexOf lowercase c in if i < 0 then c else alphabet ! nat i)"

definition is_ascii :: "char \<Rightarrow> bool" where
  "is_ascii c = ((of_char c :: nat) < 128)"

definition toUpperUnit :: "char \<Rightarrow> string" where
  "toUpperUnit c =
     (let n = (of_char c :: nat) in
      if is_ascii c then [toUpperChar c]
      else if n = 223 then ''SS''
      else if 224 \<le> n \<and> n \<le> 254 \<and> n \<noteq> 247 then [char_of (n - 32)]
      else [c])"

definition toUpperCase :: "string \<Rightarrow> string" where
  "toUpperCase s = concat (map toUpperUnit s)"

text \<open>\<^verbatim>\<open>.split('').map((c) => this.encryptChar(c))\<close>, the machine threaded through.\<close>

fun encryptChars :: "Enigma \<Rightarrow> string \<Rightarrow> js_error + (symbol list \<times> Enigma)" where
  "encryptChars e [] = Inr ([], e)"
| "encryptChars e (c # cs) =
     (case encryptChar e c of
        Inl err \<Rightarrow> Inl err
      | Inr (v, e') \<Rightarrow>
          (case encryptChars e' cs of
             Inl err \<Rightarrow> Inl err
           | Inr (vs, e'') \<Rightarrow> Inr (v # vs, e'')))"

text \<open>\<^verbatim>\<open>.join('')\<close> writes an \<^verbatim>\<open>undefined\<close> element as the empty string.\<close>

fun join :: "symbol list \<Rightarrow> string" where
  "join [] = []"
| "join (None # vs) = join vs"
| "join (Some c # vs) = c # join vs"

text \<open>\<^verbatim>\<open>process\<close> returns the text; the machine it leaves behind is returned with it.\<close>

definition process :: "Enigma \<Rightarrow> string \<Rightarrow> js_error + (string \<times> Enigma)" where
  "process e text =
     (case encryptChars e (toUpperCase text) of
        Inl err \<Rightarrow> Inl err
      | Inr (vs, e') \<Rightarrow> Inr (join vs, e'))"

subsection \<open>Well-formed configurations and machines\<close>

text \<open>
  The notions the specification uses to delimit its statements: a letter, a wiring that
  permutes the alphabet, a plugboard whose pairs are alphabetic and share no letter, a
  configuration with three catalog rotors and values in range, and a machine in such a
  state. The code checks none of them; they are hypotheses of the theorems below.
\<close>

definition is_letter :: "symbol \<Rightarrow> bool" where
  "is_letter v = (case v of None \<Rightarrow> False | Some c \<Rightarrow> c \<in> set alphabet)"

definition perm_wiring :: "string \<Rightarrow> bool" where
  "perm_wiring w = (length w = 26 \<and> distinct w \<and> set w = set alphabet)"

text \<open>Each letter appears in at most one pair: two different pairs share no letter.\<close>

fun disjoint_pairs :: "(char \<times> char) list \<Rightarrow> bool" where
  "disjoint_pairs [] = True"
| "disjoint_pairs ((a, b) # ps) =
     (list_all (\<lambda>(x, y). x \<noteq> a \<and> x \<noteq> b \<and> y \<noteq> a \<and> y \<noteq> b) ps \<and> disjoint_pairs ps)"

definition alphabetic_pairs :: "(char \<times> char) list \<Rightarrow> bool" where
  "alphabetic_pairs ps = list_all (\<lambda>(a, b). a \<in> set alphabet \<and> b \<in> set alphabet) ps"

definition valid_plugboard :: "(char \<times> char) list \<Rightarrow> bool" where
  "valid_plugboard ps = (alphabetic_pairs ps \<and> disjoint_pairs ps)"

definition in_range :: "int \<Rightarrow> bool" where
  "in_range x = (0 \<le> x \<and> x \<le> 25)"

definition valid_config ::
  "int list \<Rightarrow> int list \<Rightarrow> int list \<Rightarrow> (char \<times> char) list \<Rightarrow> bool" where
  "valid_config rotorIDs rotorPositions ringSettings pairs =
     (length rotorIDs = 3 \<and> list_all in_catalog rotorIDs \<and>
      length rotorPositions = 3 \<and> list_all in_range rotorPositions \<and>
      length ringSettings = 3 \<and> list_all in_range ringSettings \<and>
      valid_plugboard pairs)"

definition catalog_rotor :: "Rotor \<Rightarrow> bool" where
  "catalog_rotor r =
     list_ex (\<lambda>s. wiring r = spec_wiring s \<and> notch r = spec_notch s) ROTORS"

definition valid_rotor :: "Rotor \<Rightarrow> bool" where
  "valid_rotor r = (catalog_rotor r \<and> in_range (position r) \<and> in_range (ringSetting r))"

definition valid_machine :: "Enigma \<Rightarrow> bool" where
  "valid_machine e =
     (length (rotors e) = 3 \<and> list_all valid_rotor (rotors e) \<and>
      valid_plugboard (plugboardPairs e))"

text \<open>
  What it means for the lookups of the signal path to be in bounds when the symbol \<open>v\<close>
  enters a stage: the plugboard gives a letter; the reflector index is inside the
  reflector table and the reflector gives a letter; for each rotor, the forward index
  is inside the wiring, the symbol is found in the wiring, the backward index is inside
  the alphabet, and both transforms give a letter.
\<close>

definition lookups_in_bounds :: "Enigma \<Rightarrow> symbol \<Rightarrow> bool" where
  "lookups_in_bounds e v =
     (is_letter (plugboardSwap v (plugboardPairs e)) \<and>
      0 \<le> indexOfV alphabet v \<and> indexOfV alphabet v < int (length REFLECTOR) \<and>
      is_letter (reflect v) \<and>
      list_all
        (\<lambda>r. 0 \<le> mod_js (indexOfV alphabet v + position r - ringSetting r) 26 \<and>
             mod_js (indexOfV alphabet v + position r - ringSetting r) 26
               < int (length (wiring r)) \<and>
             is_letter (forward r v) \<and>
             0 \<le> indexOfV (wiring r) v \<and>
             0 \<le> mod_js (indexOfV (wiring r) v - position r + ringSetting r) 26 \<and>
             mod_js (indexOfV (wiring r) v - position r + ringSetting r) 26
               < int (length alphabet) \<and>
             is_letter (backward r v))
        (rotors e))"

section \<open>Arithmetic and string lookups\<close>

lemma mod_js_26: "mod_js n 26 = n mod 26"
proof (cases "n < 0")
  case False
  then show ?thesis by (simp add: mod_js_def js_rem_def)
next
  case True
  have a: "js_rem n 26 = - ((- n) mod 26)"
    using True by (simp add: js_rem_def)
  have b: "0 \<le> - ((- n) mod 26) + 26"
    using pos_mod_bound[of 26 "- n"] by simp
  have "mod_js n 26 = (- ((- n) mod 26) + 26) mod 26"
    using a b by (simp add: mod_js_def js_rem_def)
  also have "\<dots> = n mod 26"
    by (metis add.commute minus_minus mod_add_self1 mod_minus_eq)
  finally show ?thesis .
qed

lemma indexOf_notin: "c \<notin> set s \<Longrightarrow> indexOf s c = - 1"
  by (induction s) (auto simp: Let_def)

lemma indexOf_in:
  "c \<in> set s \<Longrightarrow>
     0 \<le> indexOf s c \<and> indexOf s c < int (length s) \<and> s ! nat (indexOf s c) = c"
proof (induction s)
  case Nil
  then show ?case by simp
next
  case (Cons x xs)
  show ?case
  proof (cases "x = c")
    case True
    then show ?thesis by simp
  next
    case False
    with Cons.prems have "c \<in> set xs" by simp
    from Cons.IH[OF this] False show ?thesis
      by (simp add: Let_def nat_add_distrib)
  qed
qed

lemma indexOf_nth: "distinct s \<Longrightarrow> i < length s \<Longrightarrow> indexOf s (s ! i) = int i"
proof (induction s arbitrary: i)
  case Nil
  then show ?case by simp
next
  case (Cons x xs)
  show ?case
  proof (cases i)
    case 0
    then show ?thesis by simp
  next
    case (Suc j)
    with Cons.prems have j: "j < length xs" and d: "distinct xs" and nx: "x \<notin> set xs"
      by auto
    have "xs ! j \<noteq> x" using j nx by (metis nth_mem)
    with Cons.IH[OF d j] Suc show ?thesis by (simp add: Let_def)
  qed
qed

section \<open>Rotor transforms\<close>

lemma mod_shift_back: "((i + p - r) mod 26 - p + r) mod 26 = i mod (26::int)"
proof -
  have "((i + p - r) mod 26 - p + r) mod 26 = ((i + p - r) - p + r) mod 26"
    by (intro mod_add_cong mod_diff_cong) simp_all
  then show ?thesis by simp
qed

lemma mod_shift_forth: "((j - p + r) mod 26 + p - r) mod 26 = j mod (26::int)"
proof -
  have "((j - p + r) mod 26 + p - r) mod 26 = ((j - p + r) + p - r) mod 26"
    by (intro mod_add_cong mod_diff_cong) simp_all
  then show ?thesis by simp
qed



lemma alphabet_facts: "length alphabet = 26" "distinct alphabet"
  by (simp_all add: alphabet_def)

lemma perm_wiringI:
  assumes "length w = 26" "distinct w" "set w \<subseteq> set alphabet"
  shows "perm_wiring w"
proof -
  have "card (set w) = 26" using assms(1,2) by (simp add: distinct_card)
  moreover have "card (set alphabet) = 26"
    using alphabet_facts by (simp add: distinct_card)
  ultimately have "set w = set alphabet"
    using assms(3) by (intro card_subset_eq) simp_all
  then show ?thesis using assms by (simp add: perm_wiring_def)
qed

lemma wiring_I: "perm_wiring ''EKMFLGDQVZNTOWYHXUSPAIBRCJ''"
  by (rule perm_wiringI) (simp_all add: alphabet_def)

lemma wiring_II: "perm_wiring ''AJDKSIRUXBLHWTMCQGZNPYFVOE''"
  by (rule perm_wiringI) (simp_all add: alphabet_def)

lemma wiring_III: "perm_wiring ''BDFHJLCPRTXVZNYEIWGAKMUSQO''"
  by (rule perm_wiringI) (simp_all add: alphabet_def)

lemma catalog_perm: "catalog_rotor r \<Longrightarrow> perm_wiring (wiring r)"
  unfolding catalog_rotor_def ROTORS_def
  using wiring_I wiring_II wiring_III by auto


lemma is_letter_Some [simp]: "is_letter (Some c) = (c \<in> set alphabet)"
  by (simp add: is_letter_def)

lemma is_letter_None [simp]: "\<not> is_letter None"
  by (simp add: is_letter_def)

lemma is_letterE: "is_letter v \<Longrightarrow> \<exists>c. v = Some c \<and> c \<in> set alphabet"
  by (cases v) auto

lemma forward_letter:
  assumes "perm_wiring (wiring r)"
  shows "is_letter (forward r v)"
proof -
  let ?k = "(indexOfV alphabet v + position r - ringSetting r) mod 26"
  have k: "0 \<le> ?k" "?k < 26" by simp_all
  have len: "length (wiring r) = 26" and sub: "set (wiring r) = set alphabet"
    using assms by (simp_all add: perm_wiring_def)
  have "forward r v = Some (wiring r ! nat ?k)"
    using k len by (simp add: forward_def mod_js_26 str_at_def)
  moreover have "wiring r ! nat ?k \<in> set (wiring r)"
    using k len by (intro nth_mem) simp
  ultimately show ?thesis using sub by simp
qed

lemma backward_forward:
  assumes w: "perm_wiring (wiring r)" and x: "x \<in> set alphabet"
  shows "backward r (forward r (Some x)) = Some x"
proof -
  let ?i = "indexOf alphabet x"
  let ?k = "(?i + position r - ringSetting r) mod 26"
  have k: "0 \<le> ?k" "?k < 26" by simp_all
  have len: "length (wiring r) = 26" and d: "distinct (wiring r)"
    using w by (simp_all add: perm_wiring_def)
  have i: "0 \<le> ?i" "?i < 26" "alphabet ! nat ?i = x"
    using indexOf_in[OF x] by (simp_all add: alphabet_facts)
  have f: "forward r (Some x) = Some (wiring r ! nat ?k)"
    using k len by (simp add: forward_def mod_js_26 str_at_def indexOfV_def)
  have "indexOf (wiring r) (wiring r ! nat ?k) = int (nat ?k)"
    using d k len by (intro indexOf_nth) simp_all
  then have j: "indexOfV (wiring r) (forward r (Some x)) = ?k"
    using f k by (simp add: indexOfV_def)
  have "(?k - position r + ringSetting r) mod 26 = ?i mod 26"
    by (rule mod_shift_back)
  also have "\<dots> = ?i" using i by simp
  finally have "backward r (forward r (Some x)) = str_at alphabet ?i"
    using j by (simp add: backward_def mod_js_26)
  then show ?thesis using i by (simp add: str_at_def alphabet_facts)
qed

lemma backward_letter: "is_letter (backward r v)"
proof -
  let ?k = "(indexOfV (wiring r) v - position r + ringSetting r) mod 26"
  have k: "0 \<le> ?k" "?k < 26" by simp_all
  have "backward r v = Some (alphabet ! nat ?k)"
    using k by (simp add: backward_def mod_js_26 str_at_def alphabet_facts)
  moreover have "alphabet ! nat ?k \<in> set alphabet"
    using k by (intro nth_mem) (simp add: alphabet_facts)
  ultimately show ?thesis by simp
qed

lemma forward_backward:
  assumes w: "perm_wiring (wiring r)" and y: "y \<in> set alphabet"
  shows "forward r (backward r (Some y)) = Some y"
proof -
  let ?j = "indexOf (wiring r) y"
  let ?m = "(?j - position r + ringSetting r) mod 26"
  have len: "length (wiring r) = 26" and sw: "set (wiring r) = set alphabet"
    using w by (simp_all add: perm_wiring_def)
  have yw: "y \<in> set (wiring r)" using y sw by simp
  have j: "0 \<le> ?j" "?j < 26" "wiring r ! nat ?j = y"
    using indexOf_in[OF yw] len by simp_all
  have m: "0 \<le> ?m" "?m < 26" by simp_all
  have b: "backward r (Some y) = Some (alphabet ! nat ?m)"
    using m by (simp add: backward_def mod_js_26 str_at_def indexOfV_def alphabet_facts)
  have "indexOf alphabet (alphabet ! nat ?m) = int (nat ?m)"
    using m by (intro indexOf_nth) (simp_all add: alphabet_facts)
  then have i: "indexOfV alphabet (backward r (Some y)) = ?m"
    using b m by (simp add: indexOfV_def)
  have "(?m + position r - ringSetting r) mod 26 = ?j mod 26"
    by (rule mod_shift_forth)
  also have "\<dots> = ?j" using j by simp
  finally have "forward r (backward r (Some y)) = str_at (wiring r) ?j"
    using i by (simp add: forward_def mod_js_26)
  then show ?thesis using j len by (simp add: str_at_def)
qed

section \<open>Plugboard and reflector\<close>

lemma disjoint_pairs_Cons:
  "disjoint_pairs ((a, b) # ps) \<Longrightarrow>
     (\<forall>x y. (x, y) \<in> set ps \<longrightarrow> x \<noteq> a \<and> x \<noteq> b \<and> y \<noteq> a \<and> y \<noteq> b) \<and>
     disjoint_pairs ps"
  by (auto simp: list_all_iff)

lemma swap_result:
  "plugboardSwap v ps = v \<or>
   (\<exists>x y. (x, y) \<in> set ps \<and> (plugboardSwap v ps = Some x \<or> plugboardSwap v ps = Some y))"
proof (induction ps)
  case Nil
  then show ?case by simp
next
  case (Cons p ps)
  obtain a b where p: "p = (a, b)" by (cases p)
  from Cons.IH show ?case unfolding p by auto
qed

lemma fresh_result:
  assumes "u = v \<or> (\<exists>x y. (x, y) \<in> set ps \<and> (u = Some x \<or> u = Some y))"
    and "\<not> (v = Some a \<or> v = Some b)"
    and "\<forall>x y. (x, y) \<in> set ps \<longrightarrow> x \<noteq> a \<and> x \<noteq> b \<and> y \<noteq> a \<and> y \<noteq> (b::char)"
  shows "u \<noteq> Some a \<and> u \<noteq> Some b"
  using assms by fastforce

lemma swap_absent:
  "\<forall>x y. (x, y) \<in> set ps \<longrightarrow> v \<noteq> Some x \<and> v \<noteq> Some y \<Longrightarrow> plugboardSwap v ps = v"
proof (induction ps)
  case Nil
  then show ?case by simp
next
  case (Cons p ps)
  obtain a b where p: "p = (a, b)" by (cases p)
  from Cons.prems have "v \<noteq> Some a" "v \<noteq> Some b"
    "\<forall>x y. (x, y) \<in> set ps \<longrightarrow> v \<noteq> Some x \<and> v \<noteq> Some y"
    unfolding p by auto
  with Cons.IH show ?case unfolding p by simp
qed

lemma swap_involution:
  "disjoint_pairs ps \<Longrightarrow> plugboardSwap (plugboardSwap v ps) ps = v"
proof (induction ps)
  case Nil
  then show ?case by simp
next
  case (Cons p ps)
  obtain a b where p: "p = (a, b)" by (cases p)
  from disjoint_pairs_Cons[OF Cons.prems[unfolded p]]
  have fresh: "\<forall>x y. (x, y) \<in> set ps \<longrightarrow> x \<noteq> a \<and> x \<noteq> b \<and> y \<noteq> a \<and> y \<noteq> b"
    and d: "disjoint_pairs ps"
    by blast+
  show ?case
  proof (cases "v = Some a \<or> v = Some b")
    case True
    then show ?thesis unfolding p by auto
  next
    case False
    let ?u = "plugboardSwap v ps"
    have "?u \<noteq> Some a \<and> ?u \<noteq> Some b"
      by (rule fresh_result[OF swap_result[of v ps] False fresh])
    then have "plugboardSwap ?u ((a, b) # ps) = plugboardSwap ?u ps" by simp
    with False Cons.IH[OF d] show ?thesis unfolding p by simp
  qed
qed

lemma swap_partner:
  "disjoint_pairs ps \<Longrightarrow> (a, b) \<in> set ps \<Longrightarrow>
     plugboardSwap (Some a) ps = Some b \<and> plugboardSwap (Some b) ps = Some a"
proof (induction ps)
  case Nil
  then show ?case by simp
next
  case (Cons p ps)
  obtain a' b' where p: "p = (a', b')" by (cases p)
  from disjoint_pairs_Cons[OF Cons.prems(1)[unfolded p]]
  have fresh: "\<forall>x y. (x, y) \<in> set ps \<longrightarrow> x \<noteq> a' \<and> x \<noteq> b' \<and> y \<noteq> a' \<and> y \<noteq> b'"
    and d: "disjoint_pairs ps"
    by blast+
  show ?case
  proof (cases "a = a' \<and> b = b'")
    case True
    then show ?thesis unfolding p by auto
  next
    case False
    with Cons.prems(2) have mem: "(a, b) \<in> set ps" unfolding p by auto
    with fresh have "a \<noteq> a'" "a \<noteq> b'" "b \<noteq> a'" "b \<noteq> b'" by auto
    with Cons.IH[OF d mem] show ?thesis unfolding p by simp
  qed
qed

lemma swap_letter:
  "alphabetic_pairs ps \<Longrightarrow> is_letter v \<Longrightarrow> is_letter (plugboardSwap v ps)"
proof (induction ps)
  case Nil
  then show ?case by simp
next
  case (Cons p ps)
  obtain a b where p: "p = (a, b)" by (cases p)
  from Cons show ?case unfolding p by (auto simp: alphabetic_pairs_def)
qed

lemma reflect_table:
  "\<forall>x\<in>set alphabet.
     reflect (Some x) \<noteq> Some x \<and> reflect (reflect (Some x)) = Some x \<and>
     is_letter (reflect (Some x))"
  by (simp add: alphabet_def reflect_def REFLECTOR_def indexOfV_def str_at_def)

lemma reflect_letter:
  "is_letter v \<Longrightarrow> is_letter (reflect v) \<and> reflect v \<noteq> v \<and> reflect (reflect v) = v"
  using reflect_table by (auto dest!: is_letterE)

section \<open>The signal path\<close>

lemma forwardPass_letter:
  "list_all (\<lambda>r. perm_wiring (wiring r)) rs \<Longrightarrow> is_letter v \<Longrightarrow> is_letter (forwardPass rs v)"
  by (cases rs) (simp_all add: forwardPass_def forward_letter)

lemma backwardPass_letter: "is_letter v \<Longrightarrow> is_letter (backwardPass rs v)"
  unfolding backwardPass_def
  by (induction rs arbitrary: v) (simp_all add: backward_letter)

lemma backwardPass_forwardPass:
  "list_all (\<lambda>r. perm_wiring (wiring r)) rs \<Longrightarrow> is_letter v \<Longrightarrow>
     backwardPass rs (forwardPass rs v) = v"
proof (induction rs)
  case Nil
  then show ?case by (simp add: forwardPass_def backwardPass_def)
next
  case (Cons r rs)
  then have w: "perm_wiring (wiring r)" and ws: "list_all (\<lambda>r. perm_wiring (wiring r)) rs"
    by simp_all
  obtain x where x: "forwardPass rs v = Some x" "x \<in> set alphabet"
    using forwardPass_letter[OF ws Cons.prems(2)] by (auto dest: is_letterE)
  have "backwardPass (r # rs) (forwardPass (r # rs) v) =
        backwardPass rs (backward r (forward r (forwardPass rs v)))"
    by (simp add: forwardPass_def backwardPass_def)
  also have "\<dots> = backwardPass rs (forwardPass rs v)"
    using backward_forward[OF w x(2)] x(1) by simp
  finally show ?case using Cons.IH[OF ws Cons.prems(2)] by simp
qed

lemma forwardPass_backwardPass:
  "list_all (\<lambda>r. perm_wiring (wiring r)) rs \<Longrightarrow> is_letter v \<Longrightarrow>
     forwardPass rs (backwardPass rs v) = v"
proof (induction rs arbitrary: v)
  case Nil
  then show ?case by (simp add: forwardPass_def backwardPass_def)
next
  case (Cons r rs)
  then have w: "perm_wiring (wiring r)" and ws: "list_all (\<lambda>r. perm_wiring (wiring r)) rs"
    by simp_all
  obtain y where y: "v = Some y" "y \<in> set alphabet"
    using Cons.prems(2) by (auto dest: is_letterE)
  have "forwardPass (r # rs) (backwardPass (r # rs) v) =
        forward r (forwardPass rs (backwardPass rs (backward r v)))"
    by (simp add: forwardPass_def backwardPass_def)
  also have "\<dots> = forward r (backward r v)"
    using Cons.IH[OF ws backward_letter] by simp
  finally show ?case using forward_backward[OF w y(2)] y(1) by simp
qed

lemma valid_machine_wired:
  "valid_machine e \<Longrightarrow> list_all (\<lambda>r. perm_wiring (wiring r)) (rotors e)"
  by (auto simp: valid_machine_def valid_rotor_def list_all_iff intro: catalog_perm)

lemma signalPath_letter:
  assumes e: "valid_machine e" and v: "is_letter v"
  shows "is_letter (signalPath e v)"
proof -
  have ap: "alphabetic_pairs (plugboardPairs e)"
    using e by (simp add: valid_machine_def valid_plugboard_def)
  have "is_letter (backwardPass (rotors e)
          (reflect (forwardPass (rotors e) (plugboardSwap v (plugboardPairs e)))))"
    using swap_letter[OF ap v] forwardPass_letter[OF valid_machine_wired[OF e]]
      reflect_letter backwardPass_letter
    by blast
  then show ?thesis unfolding signalPath_def by (rule swap_letter[OF ap])
qed

lemma signalPath_involution:
  assumes e: "valid_machine e" and v: "is_letter v"
  shows "signalPath e (signalPath e v) = v"
proof -
  let ?ps = "plugboardPairs e" and ?rs = "rotors e"
  have ap: "alphabetic_pairs ?ps" and dp: "disjoint_pairs ?ps"
    using e by (simp_all add: valid_machine_def valid_plugboard_def)
  note w = valid_machine_wired[OF e]
  let ?a = "plugboardSwap v ?ps"
  let ?b = "forwardPass ?rs ?a"
  let ?c = "reflect ?b"
  let ?d = "backwardPass ?rs ?c"
  have a: "is_letter ?a" by (rule swap_letter[OF ap v])
  have b: "is_letter ?b" by (rule forwardPass_letter[OF w a])
  have c: "is_letter ?c" using reflect_letter[OF b] by simp
  have d: "is_letter ?d" by (rule backwardPass_letter[OF c])
  have "signalPath e (signalPath e v) =
        plugboardSwap (backwardPass ?rs (reflect (forwardPass ?rs
          (plugboardSwap (plugboardSwap ?d ?ps) ?ps)))) ?ps"
    by (simp add: signalPath_def)
  also have "\<dots> = plugboardSwap (backwardPass ?rs (reflect (forwardPass ?rs ?d))) ?ps"
    by (simp add: swap_involution[OF dp])
  also have "\<dots> = plugboardSwap (backwardPass ?rs (reflect ?c)) ?ps"
    by (simp add: forwardPass_backwardPass[OF w c])
  also have "\<dots> = plugboardSwap (backwardPass ?rs ?b) ?ps"
    using reflect_letter[OF b] by simp
  also have "\<dots> = plugboardSwap ?a ?ps"
    by (simp add: backwardPass_forwardPass[OF w a])
  also have "\<dots> = v" by (rule swap_involution[OF dp])
  finally show ?thesis .
qed

lemma signalPath_no_fixpoint:
  assumes e: "valid_machine e" and v: "is_letter v"
  shows "signalPath e v \<noteq> v"
proof
  assume fp: "signalPath e v = v"
  let ?ps = "plugboardPairs e" and ?rs = "rotors e"
  have ap: "alphabetic_pairs ?ps" and dp: "disjoint_pairs ?ps"
    using e by (simp_all add: valid_machine_def valid_plugboard_def)
  note w = valid_machine_wired[OF e]
  let ?a = "plugboardSwap v ?ps"
  let ?b = "forwardPass ?rs ?a"
  let ?c = "reflect ?b"
  let ?d = "backwardPass ?rs ?c"
  have a: "is_letter ?a" by (rule swap_letter[OF ap v])
  have b: "is_letter ?b" by (rule forwardPass_letter[OF w a])
  have c: "is_letter ?c" using reflect_letter[OF b] by simp
  from fp have "plugboardSwap ?d ?ps = v" by (simp add: signalPath_def)
  then have "plugboardSwap (plugboardSwap ?d ?ps) ?ps = ?a" by simp
  then have "?d = ?a" by (simp add: swap_involution[OF dp])
  then have "forwardPass ?rs ?d = ?b" by simp
  then have "?c = ?b" by (simp add: forwardPass_backwardPass[OF w c])
  with reflect_letter[OF b] show False by simp
qed

section \<open>Stepping and whole-message processing\<close>

lemma stepRotors_three:
  "rotors e = [l, m, r] \<Longrightarrow>
     stepRotors e =
       Inr (e\<lparr>rotors :=
              [if atNotch m then step l else l,
               if atNotch r then step (if atNotch m then step m else m)
               else (if atNotch m then step m else m),
               step r]\<rparr>)"
  by (simp add: stepRotors_def Let_def)

lemma length_three: "length xs = 3 \<Longrightarrow> \<exists>a b c. xs = [a, b, c]"
  by (auto simp: length_Suc_conv numeral_3_eq_3)

lemma step_fields:
  "wiring (step r) = wiring r" "notch (step r) = notch r"
  "ringSetting (step r) = ringSetting r" "position (step r) = (position r + 1) mod 26"
  by (simp_all add: step_def mod_js_26)

lemma step_valid: "valid_rotor r \<Longrightarrow> valid_rotor (step r)"
  by (simp add: valid_rotor_def catalog_rotor_def step_fields in_range_def)

lemma stepRotors_valid:
  assumes "valid_machine e"
  shows "\<exists>e'. stepRotors e = Inr e' \<and> valid_machine e' \<and>
           plugboardPairs e' = plugboardPairs e"
proof -
  from assms obtain l m r where rs: "rotors e = [l, m, r]"
    using length_three[of "rotors e"] by (auto simp: valid_machine_def)
  from assms rs have v: "valid_rotor l" "valid_rotor m" "valid_rotor r"
    and p: "valid_plugboard (plugboardPairs e)"
    by (simp_all add: valid_machine_def)
  show ?thesis
    unfolding stepRotors_three[OF rs]
    using v p by (simp add: valid_machine_def step_valid)
qed

lemma encryptChar_other: "c \<notin> set alphabet \<Longrightarrow> encryptChar e c = Inr (Some c, e)"
  by (simp add: encryptChar_def)

lemma encryptChar_letter:
  assumes e: "valid_machine e" and c: "c \<in> set alphabet"
  shows "\<exists>d e'. encryptChar e c = Inr (Some d, e') \<and> stepRotors e = Inr e' \<and>
           valid_machine e' \<and> d \<in> set alphabet \<and> d \<noteq> c \<and>
           encryptChar e d = Inr (Some c, e')"
proof -
  from stepRotors_valid[OF e] obtain e' where
    s: "stepRotors e = Inr e'" and e': "valid_machine e'"
    by blast
  from signalPath_letter[OF e'] c obtain d where
    d: "signalPath e' (Some c) = Some d" "d \<in> set alphabet"
    using is_letterE[of "signalPath e' (Some c)"] by auto
  have nf: "d \<noteq> c"
    using signalPath_no_fixpoint[OF e', of "Some c"] c d by auto
  have inv: "signalPath e' (Some d) = Some c"
    using signalPath_involution[OF e', of "Some c"] c d by simp
  show ?thesis
    using s e' d nf inv c by (simp add: encryptChar_def)
qed

lemma encryptChar_valid:
  assumes e: "valid_machine e"
  shows "\<exists>d e'. encryptChar e c = Inr (Some d, e') \<and> valid_machine e' \<and>
           (c \<in> set alphabet \<longrightarrow> d \<in> set alphabet \<and> d \<noteq> c) \<and>
           (c \<notin> set alphabet \<longrightarrow> d = c \<and> e' = e) \<and>
           encryptChar e d = Inr (Some c, e')"
proof (cases "c \<in> set alphabet")
  case True
  from encryptChar_letter[OF e True] True show ?thesis by blast
next
  case False
  then show ?thesis using e by (simp add: encryptChar_other)
qed

lemma encryptChars_valid:
  "valid_machine e \<Longrightarrow>
     \<exists>ds e'. encryptChars e cs = Inr (map Some ds, e') \<and> valid_machine e' \<and>
       length ds = length cs \<and>
       (\<forall>i<length cs. (cs ! i \<in> set alphabet \<longrightarrow> ds ! i \<in> set alphabet \<and> ds ! i \<noteq> cs ! i) \<and>
                       (cs ! i \<notin> set alphabet \<longrightarrow> ds ! i = cs ! i)) \<and>
       encryptChars e ds = Inr (map Some cs, e')"
proof (induction cs arbitrary: e)
  case Nil
  then show ?case by simp
next
  case (Cons c cs)
  from encryptChar_valid[OF Cons.prems, of c] obtain d e1 where
    h: "encryptChar e c = Inr (Some d, e1)" "valid_machine e1"
       "c \<in> set alphabet \<longrightarrow> d \<in> set alphabet \<and> d \<noteq> c"
       "c \<notin> set alphabet \<longrightarrow> d = c \<and> e1 = e"
       "encryptChar e d = Inr (Some c, e1)"
    by blast
  from Cons.IH[OF h(2)] obtain ds e2 where
    t: "encryptChars e1 cs = Inr (map Some ds, e2)" "valid_machine e2"
       "length ds = length cs"
       "\<forall>i<length cs. (cs ! i \<in> set alphabet \<longrightarrow> ds ! i \<in> set alphabet \<and> ds ! i \<noteq> cs ! i) \<and>
                       (cs ! i \<notin> set alphabet \<longrightarrow> ds ! i = cs ! i)"
       "encryptChars e1 ds = Inr (map Some cs, e2)"
    by blast
  have idx: "\<forall>i<length (c # cs).
       ((c # cs) ! i \<in> set alphabet \<longrightarrow>
          (d # ds) ! i \<in> set alphabet \<and> (d # ds) ! i \<noteq> (c # cs) ! i) \<and>
       ((c # cs) ! i \<notin> set alphabet \<longrightarrow> (d # ds) ! i = (c # cs) ! i)"
  proof (intro allI impI)
    fix i assume "i < length (c # cs)"
    then show "((c # cs) ! i \<in> set alphabet \<longrightarrow>
          (d # ds) ! i \<in> set alphabet \<and> (d # ds) ! i \<noteq> (c # cs) ! i) \<and>
       ((c # cs) ! i \<notin> set alphabet \<longrightarrow> (d # ds) ! i = (c # cs) ! i)"
      using h(3,4) t(4) by (cases i) auto
  qed
  have "encryptChars e (c # cs) = Inr (map Some (d # ds), e2)"
    using h(1) t(1) by simp
  moreover have "encryptChars e (d # ds) = Inr (map Some (c # cs), e2)"
    using h(5) t(5) by simp
  moreover have "length (d # ds) = length (c # cs)" using t(3) by simp
  ultimately show ?case using t(2) idx by blast
qed

lemma join_Some: "join (map Some ds) = ds"
  by (induction ds) simp_all

lemma toUpperChar_other: "c \<notin> set lowercase \<Longrightarrow> toUpperChar c = c"
  by (simp add: toUpperChar_def indexOf_notin)

lemma length_lowercase: "length lowercase = 26"
  by (simp add: lowercase_def)

lemma toUpperChar_lower: "c \<in> set lowercase \<Longrightarrow> toUpperChar c \<in> set alphabet"
proof -
  assume "c \<in> set lowercase"
  from indexOf_in[OF this] have i: "0 \<le> indexOf lowercase c" "indexOf lowercase c < 26"
    unfolding length_lowercase by simp_all
  then have "nat (indexOf lowercase c) < length alphabet"
    by (simp add: alphabet_facts)
  then have "alphabet ! nat (indexOf lowercase c) \<in> set alphabet"
    by (rule nth_mem)
  then show ?thesis using i(1) by (simp add: toUpperChar_def)
qed

lemma letter_not_lower: "c \<in> set alphabet \<Longrightarrow> c \<notin> set lowercase"
  by (auto simp: alphabet_def lowercase_def)

lemma toUpperChar_letter: "c \<in> set alphabet \<Longrightarrow> toUpperChar c = c"
  by (simp add: toUpperChar_other letter_not_lower)

lemma toUpperChar_nonletter: "toUpperChar c \<notin> set alphabet \<Longrightarrow> toUpperChar c = c"
  using toUpperChar_lower toUpperChar_other by blast

lemma encryptChars_Cons_state:
  "map_sum id snd (encryptChars e (c # cs)) =
     (case encryptChar e c of
        Inl err \<Rightarrow> Inl err
      | Inr (v, e') \<Rightarrow> map_sum id snd (encryptChars e' cs))"
  by (simp split: sum.splits prod.splits)

lemma encryptChars_state_letters:
  "map_sum id snd (encryptChars e cs) =
   map_sum id snd (encryptChars e (filter (\<lambda>c. c \<in> set alphabet) cs))"
proof (induction cs arbitrary: e)
  case Nil
  then show ?case by simp
next
  case (Cons c cs)
  let ?P = "\<lambda>c. c \<in> set alphabet"
  show ?case
  proof (cases "c \<in> set alphabet")
    case True
    have "map_sum id snd (encryptChars e (filter ?P (c # cs))) =
          (case encryptChar e c of
             Inl err \<Rightarrow> Inl err
           | Inr (v, e') \<Rightarrow> map_sum id snd (encryptChars e' (filter ?P cs)))"
      using True by (simp only: filter.simps if_True encryptChars_Cons_state)
    also have "\<dots> =
          (case encryptChar e c of
             Inl err \<Rightarrow> Inl err
           | Inr (v, e') \<Rightarrow> map_sum id snd (encryptChars e' cs))"
      by (simp only: Cons.IH[symmetric])
    finally show ?thesis by (simp only: encryptChars_Cons_state)
  next
    case False
    have "map_sum id snd (encryptChars e (c # cs)) = map_sum id snd (encryptChars e cs)"
      by (simp only: encryptChars_Cons_state encryptChar_other[OF False] sum.case prod.case)
    also have "\<dots> = map_sum id snd (encryptChars e (filter ?P cs))"
      by (rule Cons.IH)
    finally show ?thesis using False by (simp only: filter.simps if_False)
  qed
qed

lemma toUpperUnit_ascii: "is_ascii c \<Longrightarrow> toUpperUnit c = [toUpperChar c]"
  by (simp add: toUpperUnit_def)

lemma toUpperCase_ascii: "list_all is_ascii s \<Longrightarrow> toUpperCase s = map toUpperChar s"
  by (induction s) (simp_all add: toUpperCase_def toUpperUnit_ascii)

lemma letter_ascii: "c \<in> set alphabet \<Longrightarrow> is_ascii c"
  by (auto simp: alphabet_def is_ascii_def)


lemma toUpperCase_letters: "set cs \<subseteq> set alphabet \<Longrightarrow> toUpperCase cs = cs"
proof -
  assume sub: "set cs \<subseteq> set alphabet"
  then have "list_all is_ascii cs" by (auto simp: list_all_iff letter_ascii)
  then have "toUpperCase cs = map toUpperChar cs" by (rule toUpperCase_ascii)
  also have "\<dots> = cs" using sub by (intro map_idI) (auto simp: toUpperChar_letter)
  finally show ?thesis .
qed

section \<open>Construction\<close>

lemma in_catalog_cases: "in_catalog ident = (ident = 0 \<or> ident = 1 \<or> ident = 2)"
  by (auto simp: in_catalog_def ROTORS_def)

lemma new_Rotor_catalog: "in_catalog ident \<Longrightarrow> catalog_rotor (new_Rotor ps rs ident i)"
  by (auto simp: in_catalog_cases new_Rotor_def catalog_rotor_def ROTORS_def)

lemma new_Enigma_three:
  "list_all in_catalog [a, b, c] \<Longrightarrow>
     new_Enigma [a, b, c] ps rs pairs =
       Inr \<lparr>rotors = [new_Rotor ps rs a 0, new_Rotor ps rs b (Suc 0), new_Rotor ps rs c (Suc (Suc 0))],
            plugboardPairs = pairs\<rparr>"
  by (simp add: new_Enigma_def upt_rec)

lemma new_Enigma_valid:
  assumes "valid_config ids ps rs pairs"
  shows "\<exists>e. new_Enigma ids ps rs pairs = Inr e \<and> valid_machine e"
proof -
  from assms obtain a b c where ids: "ids = [a, b, c]"
    using length_three[of ids] by (auto simp: valid_config_def)
  from assms obtain p0 p1 p2 where ps: "ps = [p0, p1, p2]"
    using length_three[of ps] by (auto simp: valid_config_def)
  from assms obtain r0 r1 r2 where rs: "rs = [r0, r1, r2]"
    using length_three[of rs] by (auto simp: valid_config_def)
  from assms have cat: "list_all in_catalog [a, b, c]"
    and rng: "in_range p0" "in_range p1" "in_range p2"
             "in_range r0" "in_range r1" "in_range r2"
    and pb: "valid_plugboard pairs"
    unfolding ids ps rs by (simp_all add: valid_config_def)
  have f: "position (new_Rotor ps rs x 0) = p0" "position (new_Rotor ps rs x (Suc 0)) = p1"
    "position (new_Rotor ps rs x (Suc (Suc 0))) = p2" "ringSetting (new_Rotor ps rs x 0) = r0"
    "ringSetting (new_Rotor ps rs x (Suc 0)) = r1" "ringSetting (new_Rotor ps rs x (Suc (Suc 0))) = r2" for x
    unfolding ps rs by (simp_all add: new_Rotor_def arg_or_zero_def)
  have "valid_rotor (new_Rotor ps rs a 0)" "valid_rotor (new_Rotor ps rs b (Suc 0))"
    "valid_rotor (new_Rotor ps rs c (Suc (Suc 0)))"
    using cat rng by (simp_all add: valid_rotor_def new_Rotor_catalog f)
  then show ?thesis
    unfolding ids new_Enigma_three[OF cat] using pb by (simp add: valid_machine_def)
qed

section \<open>Text processing\<close>

lemma process_state:
  "map_sum id snd (process e text) = map_sum id snd (encryptChars e (toUpperCase text))"
  by (simp add: process_def split: sum.splits prod.splits)

lemma process_state_letters:
  assumes asc: "list_all is_ascii text"
  shows "map_sum id snd (process e text) =
         map_sum id snd (process e (filter (\<lambda>c. toUpperChar c \<in> set alphabet) text))"
proof -
  let ?letters = "filter (\<lambda>c. toUpperChar c \<in> set alphabet) text"
  have asc': "list_all is_ascii ?letters" using asc by (simp add: list_all_iff)
  have "filter (\<lambda>c. c \<in> set alphabet) (map toUpperChar text) = map toUpperChar ?letters"
    by (simp add: filter_map comp_def)
  then have "filter (\<lambda>c. c \<in> set alphabet) (toUpperCase text) = toUpperCase ?letters"
    by (simp only: toUpperCase_ascii[OF asc] toUpperCase_ascii[OF asc'])
  then show ?thesis
    using encryptChars_state_letters[of e "toUpperCase text"]
    by (simp only: process_state)
qed

lemma process_total:
  assumes "valid_machine e"
  shows "\<exists>out e'. process e text = Inr (out, e') \<and> valid_machine e'"
proof -
  from encryptChars_valid[OF assms, of "toUpperCase text"] obtain ds e' where
    "encryptChars e (toUpperCase text) = Inr (map Some ds, e')" "valid_machine e'"
    by blast
  then show ?thesis by (simp add: process_def join_Some)
qed

lemma process_valid:
  assumes "valid_machine e" and asc: "list_all is_ascii text"
  shows "\<exists>out e'. process e text = Inr (out, e') \<and> valid_machine e' \<and>
           length out = length text \<and>
           (\<forall>i<length text. toUpperChar (text ! i) \<notin> set alphabet \<longrightarrow> out ! i = text ! i)"
proof -
  note up = toUpperCase_ascii[OF asc]
  from encryptChars_valid[OF assms(1), of "toUpperCase text"] obtain ds e' where
    h: "encryptChars e (toUpperCase text) = Inr (map Some ds, e')" "valid_machine e'"
       "length ds = length (toUpperCase text)"
       "\<forall>i<length (toUpperCase text).
          (toUpperCase text ! i \<in> set alphabet \<longrightarrow>
             ds ! i \<in> set alphabet \<and> ds ! i \<noteq> toUpperCase text ! i) \<and>
          (toUpperCase text ! i \<notin> set alphabet \<longrightarrow> ds ! i = toUpperCase text ! i)"
    by blast
  have p: "process e text = Inr (ds, e')"
    using h(1) by (simp add: process_def join_Some)
  have len: "length ds = length text" using h(3) by (simp add: up)
  have "\<forall>i<length text. toUpperChar (text ! i) \<notin> set alphabet \<longrightarrow> ds ! i = text ! i"
  proof (intro allI impI)
    fix i assume i: "i < length text" and n: "toUpperChar (text ! i) \<notin> set alphabet"
    have u: "toUpperCase text ! i = toUpperChar (text ! i)"
      using i by (simp add: up)
    with h(4) i n have "ds ! i = toUpperChar (text ! i)"
      by (simp add: up)
    then show "ds ! i = text ! i" using toUpperChar_nonletter[OF n] by simp
  qed
  with p h(2) len show ?thesis by blast
qed


lemma valid_machine_lookups:
  assumes e: "valid_machine e" and v: "is_letter v"
  shows "lookups_in_bounds e v"
proof -
  from v obtain x where x: "v = Some x" "x \<in> set alphabet" by (auto dest: is_letterE)
  have ap: "alphabetic_pairs (plugboardPairs e)"
    using e by (simp add: valid_machine_def valid_plugboard_def)
  have a: "is_letter (plugboardSwap v (plugboardPairs e))" by (rule swap_letter[OF ap v])
  have b: "0 \<le> indexOfV alphabet v" "indexOfV alphabet v < int (length REFLECTOR)"
    using indexOf_in[OF x(2)] x(1)
    by (simp_all add: indexOfV_def alphabet_facts REFLECTOR_def)
  have c: "is_letter (reflect v)" using reflect_letter[OF v] by simp
  have d: "\<forall>r\<in>set (rotors e).
            0 \<le> mod_js (indexOfV alphabet v + position r - ringSetting r) 26 \<and>
            mod_js (indexOfV alphabet v + position r - ringSetting r) 26
              < int (length (wiring r)) \<and>
            is_letter (forward r v) \<and>
            0 \<le> indexOfV (wiring r) v \<and>
            0 \<le> mod_js (indexOfV (wiring r) v - position r + ringSetting r) 26 \<and>
            mod_js (indexOfV (wiring r) v - position r + ringSetting r) 26
              < int (length alphabet) \<and>
            is_letter (backward r v)"
  proof
    fix r assume "r \<in> set (rotors e)"
    with valid_machine_wired[OF e] have w: "perm_wiring (wiring r)"
      by (simp add: list_all_iff)
    then have len: "length (wiring r) = 26" and sw: "set (wiring r) = set alphabet"
      by (simp_all add: perm_wiring_def)
    have "x \<in> set (wiring r)" using x(2) sw by simp
    from indexOf_in[OF this] have "0 \<le> indexOfV (wiring r) v"
      using x(1) by (simp add: indexOfV_def)
    then show "0 \<le> mod_js (indexOfV alphabet v + position r - ringSetting r) 26 \<and>
            mod_js (indexOfV alphabet v + position r - ringSetting r) 26
              < int (length (wiring r)) \<and>
            is_letter (forward r v) \<and>
            0 \<le> indexOfV (wiring r) v \<and>
            0 \<le> mod_js (indexOfV (wiring r) v - position r + ringSetting r) 26 \<and>
            mod_js (indexOfV (wiring r) v - position r + ringSetting r) 26
              < int (length alphabet) \<and>
            is_letter (backward r v)"
      using forward_letter[OF w, of v] backward_letter[of r v] len
      by (simp add: mod_js_26 alphabet_facts)
  qed
  from a b c d show ?thesis
    unfolding lookups_in_bounds_def list_all_iff by blast
qed

section \<open>Concrete runs\<close>

text \<open>
  The machine with rotors I, II, III, all positions and ring settings 0 and no plugboard
  pairs turns \<open>A\<close> into \<open>D\<close>, and \<open>D\<close> back into \<open>A\<close>.
\<close>

lemma run_A: "map_sum id fst (process \<lparr>rotors =
       [\<lparr>wiring = ''EKMFLGDQVZNTOWYHXUSPAIBRCJ'', notch = CHR ''Q'',
         ringSetting = 0, position = 0\<rparr>,
        \<lparr>wiring = ''AJDKSIRUXBLHWTMCQGZNPYFVOE'', notch = CHR ''E'',
         ringSetting = 0, position = 0\<rparr>,
        \<lparr>wiring = ''BDFHJLCPRTXVZNYEIWGAKMUSQO'', notch = CHR ''V'',
         ringSetting = 0, position = 0\<rparr>],
     plugboardPairs = []\<rparr> ''A'') = Inr ''D''"
  by code_simp

lemma run_D: "map_sum id fst (process \<lparr>rotors =
       [\<lparr>wiring = ''EKMFLGDQVZNTOWYHXUSPAIBRCJ'', notch = CHR ''Q'',
         ringSetting = 0, position = 0\<rparr>,
        \<lparr>wiring = ''AJDKSIRUXBLHWTMCQGZNPYFVOE'', notch = CHR ''E'',
         ringSetting = 0, position = 0\<rparr>,
        \<lparr>wiring = ''BDFHJLCPRTXVZNYEIWGAKMUSQO'', notch = CHR ''V'',
         ringSetting = 0, position = 0\<rparr>],
     plugboardPairs = []\<rparr> ''D'') = Inr ''A''"
  by code_simp

section \<open>The specification's claims\<close>

text \<open>
  C6. The reflector is a fixed-point-free involutive permutation of the 26-letter
  alphabet: the table \<open>REFLECTOR\<close> is a permutation of the alphabet, and for each of the
  26 letters \<open>x\<close> the lookup \<open>REFLECTOR[index(x)]\<close> is a letter different from \<open>x\<close> whose
  own lookup is \<open>x\<close> again.
\<close>

theorem reflector_fixed_point_free_involution:
  "perm_wiring REFLECTOR \<and>
   (\<forall>x\<in>set alphabet.
      reflect (Some x) = str_at REFLECTOR (indexOf alphabet x) \<and>
      is_letter (reflect (Some x)) \<and>
      reflect (Some x) \<noteq> Some x \<and>
      reflect (reflect (Some x)) = Some x)"
proof -
  have "perm_wiring REFLECTOR"
    unfolding REFLECTOR_def by (rule perm_wiringI) (simp_all add: alphabet_def)
  moreover have "\<forall>x. reflect (Some x) = str_at REFLECTOR (indexOf alphabet x)"
    by (simp add: reflect_def indexOfV_def)
  ultimately show ?thesis using reflect_table by simp
qed

theorem reflector_fixed_point_free_involution_witness:
  "CHR ''A'' \<in> set alphabet \<and> reflect (Some (CHR ''A'')) = Some (CHR ''Y'') \<and>
   reflect (Some (CHR ''A'')) \<noteq> Some (CHR ''A'') \<and>
   reflect (reflect (Some (CHR ''A''))) = Some (CHR ''A'')"
proof -
  have a: "CHR ''A'' \<in> set alphabet" by (simp add: alphabet_def)
  have y: "str_at REFLECTOR (indexOf alphabet (CHR ''A'')) = Some (CHR ''Y'')"
    by (simp add: str_at_def REFLECTOR_def alphabet_def)
  from reflector_fixed_point_free_involution a y show ?thesis by auto
qed

text \<open>
  C4. Rotor round trip: for a rotor with a catalog wiring and notch, position and ring
  setting in [0,25], and every letter \<open>x\<close>, \<open>backward (forward x) = x\<close>, where
  \<open>forward x\<close> is the wiring at \<open>(index x + position - ringSetting) mod 26\<close> and
  \<open>backward x\<close> is the alphabet at \<open>(indexInWiring x - position + ringSetting) mod 26\<close>.
\<close>

theorem rotor_round_trip:
  assumes r: "valid_rotor r" and x: "x \<in> set alphabet"
  shows "backward r (forward r (Some x)) = Some x \<and>
         forward r (Some x) =
           Some (wiring r ! nat ((indexOf alphabet x + position r - ringSetting r) mod 26)) \<and>
         backward r (Some x) =
           Some (alphabet ! nat ((indexOf (wiring r) x - position r + ringSetting r) mod 26))"
proof -
  have w: "perm_wiring (wiring r)"
    using r by (simp add: valid_rotor_def catalog_perm)
  then have len: "length (wiring r) = 26" by (simp add: perm_wiring_def)
  let ?k = "(indexOf alphabet x + position r - ringSetting r) mod 26"
  let ?m = "(indexOf (wiring r) x - position r + ringSetting r) mod 26"
  have k: "0 \<le> ?k" "?k < 26" and m: "0 \<le> ?m" "?m < 26" by simp_all
  have "forward r (Some x) = Some (wiring r ! nat ?k)"
    using k len by (simp add: forward_def mod_js_26 str_at_def indexOfV_def)
  moreover have "backward r (Some x) = Some (alphabet ! nat ?m)"
    using m by (simp add: backward_def mod_js_26 str_at_def indexOfV_def alphabet_facts)
  ultimately show ?thesis using backward_forward[OF w x] by simp
qed

theorem rotor_round_trip_witness:
  "valid_rotor \<lparr>wiring = ''EKMFLGDQVZNTOWYHXUSPAIBRCJ'', notch = CHR ''Q'',
                 ringSetting = 1, position = 3\<rparr> \<and>
   CHR ''A'' \<in> set alphabet \<and>
   backward \<lparr>wiring = ''EKMFLGDQVZNTOWYHXUSPAIBRCJ'', notch = CHR ''Q'',
             ringSetting = 1, position = 3\<rparr>
     (forward \<lparr>wiring = ''EKMFLGDQVZNTOWYHXUSPAIBRCJ'', notch = CHR ''Q'',
               ringSetting = 1, position = 3\<rparr> (Some (CHR ''A''))) = Some (CHR ''A'')"
proof -
  let ?r = "\<lparr>wiring = ''EKMFLGDQVZNTOWYHXUSPAIBRCJ'', notch = CHR ''Q'',
             ringSetting = 1, position = 3\<rparr>"
  have v: "valid_rotor ?r"
    by (simp add: valid_rotor_def catalog_rotor_def ROTORS_def in_range_def)
  have a: "CHR ''A'' \<in> set alphabet" by (simp add: alphabet_def)
  from rotor_round_trip[OF v a, THEN conjunct1] v a show ?thesis by blast
qed

text \<open>
  C5. The plugboard is a partial involution: when each letter appears in at most one
  pair, swapping twice returns every symbol \<open>c\<close>; the swap returns the partner of \<open>c\<close>
  when \<open>c\<close> is the first or the second member of a pair, and \<open>c\<close> itself when it is in
  no pair.
\<close>

theorem plugboard_partial_involution:
  assumes "disjoint_pairs pairs"
  shows "plugboardSwap (plugboardSwap (Some c) pairs) pairs = Some c \<and>
         (\<forall>a b. (a, b) \<in> set pairs \<longrightarrow>
            (c = a \<longrightarrow> plugboardSwap (Some c) pairs = Some b) \<and>
            (c = b \<longrightarrow> plugboardSwap (Some c) pairs = Some a)) \<and>
         ((\<forall>a b. (a, b) \<in> set pairs \<longrightarrow> c \<noteq> a \<and> c \<noteq> b) \<longrightarrow>
            plugboardSwap (Some c) pairs = Some c)"
proof (intro conjI allI impI)
  show "plugboardSwap (plugboardSwap (Some c) pairs) pairs = Some c"
    by (rule swap_involution[OF assms])
next
  fix a b assume "(a, b) \<in> set pairs" "c = a"
  then show "plugboardSwap (Some c) pairs = Some b"
    using swap_partner[OF assms] by simp
next
  fix a b assume "(a, b) \<in> set pairs" "c = b"
  then show "plugboardSwap (Some c) pairs = Some a"
    using swap_partner[OF assms] by simp
next
  assume "\<forall>a b. (a, b) \<in> set pairs \<longrightarrow> c \<noteq> a \<and> c \<noteq> b"
  then show "plugboardSwap (Some c) pairs = Some c"
    by (intro swap_absent) simp
qed

theorem plugboard_partial_involution_witness:
  "disjoint_pairs [(CHR ''A'', CHR ''B''), (CHR ''C'', CHR ''D'')] \<and>
   plugboardSwap (Some (CHR ''A'')) [(CHR ''A'', CHR ''B''), (CHR ''C'', CHR ''D'')]
     = Some (CHR ''B'') \<and>
   plugboardSwap (Some (CHR ''D'')) [(CHR ''A'', CHR ''B''), (CHR ''C'', CHR ''D'')]
     = Some (CHR ''C'') \<and>
   plugboardSwap (Some (CHR ''E'')) [(CHR ''A'', CHR ''B''), (CHR ''C'', CHR ''D'')]
     = Some (CHR ''E'') \<and>
   plugboardSwap
     (plugboardSwap (Some (CHR ''A'')) [(CHR ''A'', CHR ''B''), (CHR ''C'', CHR ''D'')])
     [(CHR ''A'', CHR ''B''), (CHR ''C'', CHR ''D'')] = Some (CHR ''A'')"
proof -
  let ?ps = "[(CHR ''A'', CHR ''B''), (CHR ''C'', CHR ''D'')]"
  have d: "disjoint_pairs ?ps" by simp
  note t = plugboard_partial_involution[OF d]
  have "plugboardSwap (Some (CHR ''A'')) ?ps = Some (CHR ''B'')"
    using t[of "CHR ''A''"] by simp
  moreover have "plugboardSwap (Some (CHR ''D'')) ?ps = Some (CHR ''C'')"
    using t[of "CHR ''D''"] by simp
  moreover have "plugboardSwap (Some (CHR ''E'')) ?ps = Some (CHR ''E'')"
    using t[of "CHR ''E''"] by simp
  moreover have "plugboardSwap (plugboardSwap (Some (CHR ''A'')) ?ps) ?ps = Some (CHR ''A'')"
    using t[of "CHR ''A''"] by blast
  ultimately show ?thesis using d by blast
qed

text \<open>
  C2 (as the code has it). The constructor validates nothing. It fails, with the
  \<^verbatim>\<open>TypeError\<close> of the catalog lookup, exactly when some rotor identifier is outside the
  catalog \<open>{0, 1, 2}\<close>, and then no machine is produced; positions, ring settings,
  plugboard pairs and the number of rotors are not checked. Construction from a valid
  configuration succeeds and yields a machine in a valid state.
\<close>

theorem construction_fails_only_on_rotor_identifier:
  "(new_Enigma ids ps rs pairs = Inl TypeError) = (\<exists>i\<in>set ids. i \<noteq> 0 \<and> i \<noteq> 1 \<and> i \<noteq> 2) \<and>
   (\<exists>e. new_Enigma ids ps rs pairs = Inr e) = (\<forall>i\<in>set ids. i = 0 \<or> i = 1 \<or> i = 2) \<and>
   (valid_config ids ps rs pairs \<longrightarrow>
      (\<exists>e. new_Enigma ids ps rs pairs = Inr e \<and> valid_machine e))"
proof -
  have c: "list_all in_catalog ids = (\<forall>i\<in>set ids. i = 0 \<or> i = 1 \<or> i = 2)"
    by (simp add: list_all_iff in_catalog_cases)
  have "(new_Enigma ids ps rs pairs = Inl TypeError) = (\<not> list_all in_catalog ids)"
    by (simp add: new_Enigma_def)
  moreover have "(\<exists>e. new_Enigma ids ps rs pairs = Inr e) = list_all in_catalog ids"
    by (simp add: new_Enigma_def)
  ultimately show ?thesis using c new_Enigma_valid[of ids ps rs pairs] by auto
qed

theorem construction_fails_only_on_rotor_identifier_witness:
  "valid_config [0, 1, 2] [0, 0, 0] [0, 0, 0] [(CHR ''A'', CHR ''B'')] \<and>
   (\<exists>e. new_Enigma [0, 1, 2] [0, 0, 0] [0, 0, 0] [(CHR ''A'', CHR ''B'')] = Inr e \<and>
        valid_machine e) \<and>
   new_Enigma [0, 3, 1] [0, 0, 0] [0, 0, 0] [] = Inl TypeError"
proof -
  have v: "valid_config [0, 1, 2] [0, 0, 0] [0, 0, 0] [(CHR ''A'', CHR ''B'')]"
    by (simp add: valid_config_def in_catalog_cases in_range_def valid_plugboard_def
        alphabetic_pairs_def alphabet_def)
  have b: "\<exists>i\<in>set [0, 3, 1 :: int]. i \<noteq> 0 \<and> i \<noteq> 1 \<and> i \<noteq> 2" by simp
  from construction_fails_only_on_rotor_identifier
         [of "[0, 1, 2]" "[0, 0, 0]" "[0, 0, 0]" "[(CHR ''A'', CHR ''B'')]"] v
  have "\<exists>e. new_Enigma [0, 1, 2] [0, 0, 0] [0, 0, 0] [(CHR ''A'', CHR ''B'')] = Inr e \<and>
        valid_machine e"
    by blast
  moreover from construction_fails_only_on_rotor_identifier
         [of "[0, 3, 1]" "[0, 0, 0]" "[0, 0, 0]" "[]"] b
  have "new_Enigma [0, 3, 1] [0, 0, 0] [0, 0, 0] [] = Inl TypeError"
    by blast
  ultimately show ?thesis using v by blast
qed

text \<open>
  The claim as the specification states it fails: a position of 26, a list of two
  rotors, and a plugboard that repeats a letter and holds a digit are all invalid
  configurations, and the constructor returns a machine for each.
\<close>

theorem construction_accepts_invalid_configuration:
  "\<not> valid_config [0, 1, 2] [26, 0, 0] [0, 0, 0] [] \<and>
   new_Enigma [0, 1, 2] [26, 0, 0] [0, 0, 0] [] =
     Inr \<lparr>rotors =
            [\<lparr>wiring = ''EKMFLGDQVZNTOWYHXUSPAIBRCJ'', notch = CHR ''Q'',
              ringSetting = 0, position = 26\<rparr>,
             \<lparr>wiring = ''AJDKSIRUXBLHWTMCQGZNPYFVOE'', notch = CHR ''E'',
              ringSetting = 0, position = 0\<rparr>,
             \<lparr>wiring = ''BDFHJLCPRTXVZNYEIWGAKMUSQO'', notch = CHR ''V'',
              ringSetting = 0, position = 0\<rparr>],
          plugboardPairs = []\<rparr> \<and>
   \<not> valid_config [0, 1] [0, 0] [0, 0] [(CHR ''A'', CHR ''B''), (CHR ''A'', CHR ''1'')] \<and>
   new_Enigma [0, 1] [0, 0] [0, 0] [(CHR ''A'', CHR ''B''), (CHR ''A'', CHR ''1'')] =
     Inr \<lparr>rotors =
            [\<lparr>wiring = ''EKMFLGDQVZNTOWYHXUSPAIBRCJ'', notch = CHR ''Q'',
              ringSetting = 0, position = 0\<rparr>,
             \<lparr>wiring = ''AJDKSIRUXBLHWTMCQGZNPYFVOE'', notch = CHR ''E'',
              ringSetting = 0, position = 0\<rparr>],
          plugboardPairs = [(CHR ''A'', CHR ''B''), (CHR ''A'', CHR ''1'')]\<rparr>"
  by (simp add: valid_config_def in_range_def new_Enigma_def in_catalog_cases
      new_Rotor_def arg_or_zero_def ROTORS_def upt_rec)

text \<open>
  C3. The stepping rule: for a machine with rotors left, middle, right and an alphabetic
  input character, one \<open>encryptChar\<close> call leaves wirings, notches, ring settings and the
  plugboard alone and changes positions as follows, both notch tests being those of the
  rotors before the keystroke: the right rotor advances by one modulo 26; the middle
  rotor advances once for being at its own notch and once for the right rotor being at
  its notch, independently; the left rotor advances by one exactly when the middle
  rotor was at its notch.
\<close>

theorem stepping_rule:
  assumes rs: "rotors e = [l, m, r]" and c: "c \<in> set alphabet"
  shows "\<exists>v l' m' r'.
           encryptChar e c = Inr (v, e\<lparr>rotors := [l', m', r']\<rparr>) \<and>
           position r' = (position r + 1) mod 26 \<and>
           position m' =
             (if atNotch m \<and> atNotch r then (position m + 2) mod 26
              else if atNotch m \<or> atNotch r then (position m + 1) mod 26
              else position m) \<and>
           position l' = (if atNotch m then (position l + 1) mod 26 else position l) \<and>
           (in_range (position m) \<longrightarrow>
              position m' =
                (position m + (if atNotch m then 1 else 0) + (if atNotch r then 1 else 0))
                  mod 26) \<and>
           (in_range (position l) \<longrightarrow>
              position l' = (position l + (if atNotch m then 1 else 0)) mod 26) \<and>
           map wiring [l', m', r'] = map wiring [l, m, r] \<and>
           map notch [l', m', r'] = map notch [l, m, r] \<and>
           map ringSetting [l', m', r'] = map ringSetting [l, m, r]"
proof -
  let ?l = "if atNotch m then step l else l"
  let ?m0 = "if atNotch m then step m else m"
  let ?m = "if atNotch r then step ?m0 else ?m0"
  have two: "((position m + 1) mod 26 + 1) mod 26 = (position m + 2) mod 26"
    by (simp add: mod_simps ac_simps)
  have "encryptChar e c =
          Inr (signalPath (e\<lparr>rotors := [?l, ?m, step r]\<rparr>) (Some c),
               e\<lparr>rotors := [?l, ?m, step r]\<rparr>)"
    using c by (simp add: encryptChar_def stepRotors_three[OF rs])
  moreover have "position (step r) = (position r + 1) mod 26"
    by (simp add: step_fields)
  moreover have "position ?m =
             (if atNotch m \<and> atNotch r then (position m + 2) mod 26
              else if atNotch m \<or> atNotch r then (position m + 1) mod 26
              else position m)"
    using two by (simp add: step_fields)
  moreover have "position ?l = (if atNotch m then (position l + 1) mod 26 else position l)"
    by (simp add: step_fields)
  moreover have "in_range (position m) \<longrightarrow>
              position ?m =
                (position m + (if atNotch m then 1 else 0) + (if atNotch r then 1 else 0))
                  mod 26"
    using two by (simp add: step_fields in_range_def ac_simps)
  moreover have "in_range (position l) \<longrightarrow>
              position ?l = (position l + (if atNotch m then 1 else 0)) mod 26"
    by (simp add: step_fields in_range_def)
  moreover have "map wiring [?l, ?m, step r] = map wiring [l, m, r]"
    "map notch [?l, ?m, step r] = map notch [l, m, r]"
    "map ringSetting [?l, ?m, step r] = map ringSetting [l, m, r]"
    by (simp_all add: step_fields)
  ultimately show ?thesis by blast
qed

theorem stepping_rule_witness:
  "rotors \<lparr>rotors =
            [\<lparr>wiring = ''EKMFLGDQVZNTOWYHXUSPAIBRCJ'', notch = CHR ''Q'',
              ringSetting = 0, position = 0\<rparr>,
             \<lparr>wiring = ''AJDKSIRUXBLHWTMCQGZNPYFVOE'', notch = CHR ''E'',
              ringSetting = 0, position = 4\<rparr>,
             \<lparr>wiring = ''BDFHJLCPRTXVZNYEIWGAKMUSQO'', notch = CHR ''V'',
              ringSetting = 0, position = 0\<rparr>],
          plugboardPairs = []\<rparr> =
     [\<lparr>wiring = ''EKMFLGDQVZNTOWYHXUSPAIBRCJ'', notch = CHR ''Q'',
       ringSetting = 0, position = 0\<rparr>,
      \<lparr>wiring = ''AJDKSIRUXBLHWTMCQGZNPYFVOE'', notch = CHR ''E'',
       ringSetting = 0, position = 4\<rparr>,
      \<lparr>wiring = ''BDFHJLCPRTXVZNYEIWGAKMUSQO'', notch = CHR ''V'',
       ringSetting = 0, position = 0\<rparr>] \<and>
   CHR ''A'' \<in> set alphabet \<and>
   atNotch \<lparr>wiring = ''AJDKSIRUXBLHWTMCQGZNPYFVOE'', notch = CHR ''E'',
            ringSetting = 0, position = 4\<rparr> \<and>
   \<not> atNotch \<lparr>wiring = ''BDFHJLCPRTXVZNYEIWGAKMUSQO'', notch = CHR ''V'',
              ringSetting = 0, position = 0\<rparr> \<and>
   (\<exists>v l' m' r'.
      encryptChar
        \<lparr>rotors =
           [\<lparr>wiring = ''EKMFLGDQVZNTOWYHXUSPAIBRCJ'', notch = CHR ''Q'',
             ringSetting = 0, position = 0\<rparr>,
            \<lparr>wiring = ''AJDKSIRUXBLHWTMCQGZNPYFVOE'', notch = CHR ''E'',
             ringSetting = 0, position = 4\<rparr>,
            \<lparr>wiring = ''BDFHJLCPRTXVZNYEIWGAKMUSQO'', notch = CHR ''V'',
             ringSetting = 0, position = 0\<rparr>],
         plugboardPairs = []\<rparr> (CHR ''A'') =
        Inr (v, \<lparr>rotors = [l', m', r'], plugboardPairs = []\<rparr>) \<and>
      position l' = 1 \<and> position m' = 5 \<and> position r' = 1)"
proof -
  let ?l = "\<lparr>wiring = ''EKMFLGDQVZNTOWYHXUSPAIBRCJ'', notch = CHR ''Q'',
             ringSetting = 0, position = 0\<rparr>"
  let ?m = "\<lparr>wiring = ''AJDKSIRUXBLHWTMCQGZNPYFVOE'', notch = CHR ''E'',
             ringSetting = 0, position = 4\<rparr>"
  let ?r = "\<lparr>wiring = ''BDFHJLCPRTXVZNYEIWGAKMUSQO'', notch = CHR ''V'',
             ringSetting = 0, position = 0\<rparr>"
  let ?e = "\<lparr>rotors = [?l, ?m, ?r], plugboardPairs = []\<rparr>"
  have rs: "rotors ?e = [?l, ?m, ?r]" by simp
  have a: "CHR ''A'' \<in> set alphabet" by (simp add: alphabet_def)
  have nm: "atNotch ?m" by (simp add: atNotch_def str_at_def alphabet_def)
  have nr: "\<not> atNotch ?r" by (simp add: atNotch_def str_at_def alphabet_def)
  from stepping_rule[OF rs a] obtain v l' m' r' where
    h: "encryptChar ?e (CHR ''A'') = Inr (v, ?e\<lparr>rotors := [l', m', r']\<rparr>)"
       "position r' = (position ?r + 1) mod 26"
       "position m' =
             (if atNotch ?m \<and> atNotch ?r then (position ?m + 2) mod 26
              else if atNotch ?m \<or> atNotch ?r then (position ?m + 1) mod 26
              else position ?m)"
       "position l' = (if atNotch ?m then (position ?l + 1) mod 26 else position ?l)"
    by blast
  have "position l' = 1" using h(4) nm by simp
  moreover have "position m' = 5" using h(3) nm nr by simp
  moreover have "position r' = 1" using h(2) by simp
  moreover have "encryptChar ?e (CHR ''A'') =
      Inr (v, \<lparr>rotors = [l', m', r'], plugboardPairs = []\<rparr>)"
    using h(1) by simp
  ultimately show ?thesis using rs a nm nr by blast
qed

text \<open>
  C1. Encryption is an involution: for a valid configuration (three catalog rotor
  identifiers, positions and ring settings in [0,25], disjoint alphabetic plugboard
  pairs) and a message of uppercase letters, a fresh machine built from the
  configuration turns the message into a ciphertext of uppercase letters of the same
  length, and a second fresh machine built from the same configuration turns that
  ciphertext back into the message.
\<close>

theorem encryption_involution:
  assumes cfg: "valid_config ids ps rs pairs" and msg: "set M \<subseteq> set alphabet"
  shows "\<exists>e ct e1 e2.
           new_Enigma ids ps rs pairs = Inr e \<and>
           process e M = Inr (ct, e1) \<and>
           length ct = length M \<and> set ct \<subseteq> set alphabet \<and>
           process e ct = Inr (M, e2)"
proof -
  from new_Enigma_valid[OF cfg] obtain e where
    e: "new_Enigma ids ps rs pairs = Inr e" "valid_machine e"
    by blast
  from encryptChars_valid[OF e(2), of M] obtain ds e' where
    h: "encryptChars e M = Inr (map Some ds, e')" "length ds = length M"
       "\<forall>i<length M. (M ! i \<in> set alphabet \<longrightarrow> ds ! i \<in> set alphabet \<and> ds ! i \<noteq> M ! i) \<and>
                      (M ! i \<notin> set alphabet \<longrightarrow> ds ! i = M ! i)"
       "encryptChars e ds = Inr (map Some M, e')"
    by blast
  have sub: "set ds \<subseteq> set alphabet"
  proof
    fix d assume "d \<in> set ds"
    then obtain i where i: "i < length ds" "ds ! i = d" by (auto simp: in_set_conv_nth)
    with h(2) msg have "M ! i \<in> set alphabet" by (metis nth_mem subsetD)
    with h(3) i h(2) show "d \<in> set alphabet" by auto
  qed
  have "process e M = Inr (ds, e')"
    using h(1) by (simp add: process_def toUpperCase_letters[OF msg] join_Some)
  moreover have "process e ds = Inr (M, e')"
    using h(4) by (simp add: process_def toUpperCase_letters[OF sub] join_Some)
  ultimately show ?thesis using e(1) h(2) sub by blast
qed

theorem encryption_involution_witness:
  "valid_config [0, 1, 2] [0, 0, 0] [0, 0, 0] [] \<and>
   set ''HELLO'' \<subseteq> set alphabet \<and>
   (\<exists>e ct e1 e2.
      new_Enigma [0, 1, 2] [0, 0, 0] [0, 0, 0] [] = Inr e \<and>
      process e ''HELLO'' = Inr (ct, e1) \<and>
      length ct = length ''HELLO'' \<and> set ct \<subseteq> set alphabet \<and>
      process e ct = Inr (''HELLO'', e2))"
proof -
  have v: "valid_config [0, 1, 2] [0, 0, 0] [0, 0, 0] []"
    by (simp add: valid_config_def in_catalog_cases in_range_def valid_plugboard_def
        alphabetic_pairs_def)
  have m: "set ''HELLO'' \<subseteq> set alphabet" by (simp add: alphabet_def)
  from encryption_involution[OF v m] v m show ?thesis by blast
qed

text \<open>
  C7 (as the code has it). For a character outside the uppercase alphabet
  \<open>encryptChar\<close> returns it unchanged and leaves the machine as it was; the machine
  after \<open>process "A1B"\<close> is the machine after \<open>process "AB"\<close>; and for ASCII text the
  machine after processing is the machine after processing its letters alone, and on
  a valid machine the output has the length of the input and every non-letter stands
  verbatim at its original position.
\<close>

theorem non_letters_transparent:
  "(c \<notin> set alphabet \<longrightarrow> encryptChar e c = Inr (Some c, e)) \<and>
   map_sum id snd (process e ''A1B'') = map_sum id snd (process e ''AB'') \<and>
   (list_all is_ascii text \<longrightarrow>
      map_sum id snd (process e text) =
        map_sum id snd (process e (filter (\<lambda>c. toUpperChar c \<in> set alphabet) text)) \<and>
      (valid_machine e \<longrightarrow>
         (\<exists>out e'. process e text = Inr (out, e') \<and> length out = length text \<and>
            (\<forall>i<length text.
               toUpperChar (text ! i) \<notin> set alphabet \<longrightarrow> out ! i = text ! i))))"
proof -
  have u: "toUpperChar (CHR ''A'') = CHR ''A''" "toUpperChar (CHR ''B'') = CHR ''B''"
    "toUpperChar (CHR ''1'') = CHR ''1''"
    by (simp_all add: toUpperChar_def lowercase_def)
  have a: "list_all is_ascii ''A1B''" by (simp add: is_ascii_def)
  have "filter (\<lambda>c. toUpperChar c \<in> set alphabet) ''A1B'' = ''AB''"
    by (simp add: u) (simp add: alphabet_def)
  then have "map_sum id snd (process e ''A1B'') = map_sum id snd (process e ''AB'')"
    using process_state_letters[OF a, of e] by simp
  moreover have "list_all is_ascii text \<longrightarrow> valid_machine e \<longrightarrow>
         (\<exists>out e'. process e text = Inr (out, e') \<and> length out = length text \<and>
            (\<forall>i<length text.
               toUpperChar (text ! i) \<notin> set alphabet \<longrightarrow> out ! i = text ! i))"
    using process_valid[of e "text"] by blast
  moreover have "list_all is_ascii text \<longrightarrow>
      map_sum id snd (process e text) =
        map_sum id snd (process e (filter (\<lambda>c. toUpperChar c \<in> set alphabet) text))"
    using process_state_letters[of "text" e] by blast
  ultimately show ?thesis
    using encryptChar_other[of c e] by blast
qed

theorem non_letters_transparent_witness:
  "CHR ''1'' \<notin> set alphabet \<and>
   encryptChar \<lparr>rotors =
       [\<lparr>wiring = ''EKMFLGDQVZNTOWYHXUSPAIBRCJ'', notch = CHR ''Q'',
         ringSetting = 0, position = 0\<rparr>,
        \<lparr>wiring = ''AJDKSIRUXBLHWTMCQGZNPYFVOE'', notch = CHR ''E'',
         ringSetting = 0, position = 0\<rparr>,
        \<lparr>wiring = ''BDFHJLCPRTXVZNYEIWGAKMUSQO'', notch = CHR ''V'',
         ringSetting = 0, position = 0\<rparr>],
     plugboardPairs = []\<rparr> (CHR ''1'') = Inr (Some (CHR ''1''), \<lparr>rotors =
       [\<lparr>wiring = ''EKMFLGDQVZNTOWYHXUSPAIBRCJ'', notch = CHR ''Q'',
         ringSetting = 0, position = 0\<rparr>,
        \<lparr>wiring = ''AJDKSIRUXBLHWTMCQGZNPYFVOE'', notch = CHR ''E'',
         ringSetting = 0, position = 0\<rparr>,
        \<lparr>wiring = ''BDFHJLCPRTXVZNYEIWGAKMUSQO'', notch = CHR ''V'',
         ringSetting = 0, position = 0\<rparr>],
     plugboardPairs = []\<rparr>) \<and>
   list_all is_ascii ''A1B'' \<and>
   valid_machine \<lparr>rotors =
       [\<lparr>wiring = ''EKMFLGDQVZNTOWYHXUSPAIBRCJ'', notch = CHR ''Q'',
         ringSetting = 0, position = 0\<rparr>,
        \<lparr>wiring = ''AJDKSIRUXBLHWTMCQGZNPYFVOE'', notch = CHR ''E'',
         ringSetting = 0, position = 0\<rparr>,
        \<lparr>wiring = ''BDFHJLCPRTXVZNYEIWGAKMUSQO'', notch = CHR ''V'',
         ringSetting = 0, position = 0\<rparr>],
     plugboardPairs = []\<rparr> \<and>
   map_sum id snd (process \<lparr>rotors =
       [\<lparr>wiring = ''EKMFLGDQVZNTOWYHXUSPAIBRCJ'', notch = CHR ''Q'',
         ringSetting = 0, position = 0\<rparr>,
        \<lparr>wiring = ''AJDKSIRUXBLHWTMCQGZNPYFVOE'', notch = CHR ''E'',
         ringSetting = 0, position = 0\<rparr>,
        \<lparr>wiring = ''BDFHJLCPRTXVZNYEIWGAKMUSQO'', notch = CHR ''V'',
         ringSetting = 0, position = 0\<rparr>],
     plugboardPairs = []\<rparr> ''A1B'') = map_sum id snd (process \<lparr>rotors =
       [\<lparr>wiring = ''EKMFLGDQVZNTOWYHXUSPAIBRCJ'', notch = CHR ''Q'',
         ringSetting = 0, position = 0\<rparr>,
        \<lparr>wiring = ''AJDKSIRUXBLHWTMCQGZNPYFVOE'', notch = CHR ''E'',
         ringSetting = 0, position = 0\<rparr>,
        \<lparr>wiring = ''BDFHJLCPRTXVZNYEIWGAKMUSQO'', notch = CHR ''V'',
         ringSetting = 0, position = 0\<rparr>],
     plugboardPairs = []\<rparr> ''AB'') \<and>
   (\<exists>out e'. process \<lparr>rotors =
       [\<lparr>wiring = ''EKMFLGDQVZNTOWYHXUSPAIBRCJ'', notch = CHR ''Q'',
         ringSetting = 0, position = 0\<rparr>,
        \<lparr>wiring = ''AJDKSIRUXBLHWTMCQGZNPYFVOE'', notch = CHR ''E'',
         ringSetting = 0, position = 0\<rparr>,
        \<lparr>wiring = ''BDFHJLCPRTXVZNYEIWGAKMUSQO'', notch = CHR ''V'',
         ringSetting = 0, position = 0\<rparr>],
     plugboardPairs = []\<rparr> ''A1B'' = Inr (out, e') \<and> length out = 3 \<and>
      out ! 1 = CHR ''1'')"
proof -
  let ?e = "\<lparr>rotors =
       [\<lparr>wiring = ''EKMFLGDQVZNTOWYHXUSPAIBRCJ'', notch = CHR ''Q'',
         ringSetting = 0, position = 0\<rparr>,
        \<lparr>wiring = ''AJDKSIRUXBLHWTMCQGZNPYFVOE'', notch = CHR ''E'',
         ringSetting = 0, position = 0\<rparr>,
        \<lparr>wiring = ''BDFHJLCPRTXVZNYEIWGAKMUSQO'', notch = CHR ''V'',
         ringSetting = 0, position = 0\<rparr>],
     plugboardPairs = []\<rparr>"
  have n: "CHR ''1'' \<notin> set alphabet" by (simp add: alphabet_def)
  have a: "list_all is_ascii ''A1B''" by (simp add: is_ascii_def)
  have v: "valid_machine ?e"
    by (simp add: valid_machine_def valid_rotor_def catalog_rotor_def ROTORS_def
        in_range_def valid_plugboard_def alphabetic_pairs_def)
  have t: "toUpperChar (''A1B'' ! 1) \<notin> set alphabet"
    by (simp add: toUpperChar_def lowercase_def alphabet_def)
  note th = non_letters_transparent[of "CHR ''1''" ?e "''A1B''"]
  from th n have 1: "encryptChar ?e (CHR ''1'') = Inr (Some (CHR ''1''), ?e)" by blast
  from th have 2: "map_sum id snd (process ?e ''A1B'') = map_sum id snd (process ?e ''AB'')"
    by blast
  from th a v obtain out e' where
    o: "process ?e ''A1B'' = Inr (out, e')" "length out = length ''A1B''"
       "\<forall>i<length ''A1B''. toUpperChar (''A1B'' ! i) \<notin> set alphabet \<longrightarrow> out ! i = ''A1B'' ! i"
    by blast
  from o(3) t have "out ! 1 = ''A1B'' ! 1" by simp
  then have "out ! 1 = CHR ''1''" by simp
  with o(1,2) have 3: "\<exists>out e'. process ?e ''A1B'' = Inr (out, e') \<and> length out = 3 \<and>
      out ! 1 = CHR ''1''"
    by simp
  from n 1 a v 2 3 show ?thesis by blast
qed

text \<open>
  The claim as the specification states it fails outside ASCII, because \<open>process\<close>
  uppercases the text before any character reaches \<open>encryptChar\<close>. In the text of the
  sharp s followed by the digit 1, neither character is in the alphabet; the sharp s
  becomes SS, the rotors step twice, and the digit leaves index 1 for index 2 of an
  output of length 3. In the text A, e with acute accent (233), B the middle character
  comes out as E with acute accent (201).
\<close>

theorem non_letter_not_verbatim:
  "CHR 0xDF \<notin> set alphabet \<and> CHR ''1'' \<notin> set alphabet \<and> CHR 0xE9 \<notin> set alphabet \<and>
   valid_machine \<lparr>rotors =
       [\<lparr>wiring = ''EKMFLGDQVZNTOWYHXUSPAIBRCJ'', notch = CHR ''Q'',
         ringSetting = 0, position = 0\<rparr>,
        \<lparr>wiring = ''AJDKSIRUXBLHWTMCQGZNPYFVOE'', notch = CHR ''E'',
         ringSetting = 0, position = 0\<rparr>,
        \<lparr>wiring = ''BDFHJLCPRTXVZNYEIWGAKMUSQO'', notch = CHR ''V'',
         ringSetting = 0, position = 0\<rparr>],
     plugboardPairs = []\<rparr> \<and>
   process \<lparr>rotors =
       [\<lparr>wiring = ''EKMFLGDQVZNTOWYHXUSPAIBRCJ'', notch = CHR ''Q'',
         ringSetting = 0, position = 0\<rparr>,
        \<lparr>wiring = ''AJDKSIRUXBLHWTMCQGZNPYFVOE'', notch = CHR ''E'',
         ringSetting = 0, position = 0\<rparr>,
        \<lparr>wiring = ''BDFHJLCPRTXVZNYEIWGAKMUSQO'', notch = CHR ''V'',
         ringSetting = 0, position = 0\<rparr>],
     plugboardPairs = []\<rparr> [CHR 0xDF, CHR ''1''] =
     Inr (''EY1'', \<lparr>rotors =
       [\<lparr>wiring = ''EKMFLGDQVZNTOWYHXUSPAIBRCJ'', notch = CHR ''Q'',
         ringSetting = 0, position = 0\<rparr>,
        \<lparr>wiring = ''AJDKSIRUXBLHWTMCQGZNPYFVOE'', notch = CHR ''E'',
         ringSetting = 0, position = 0\<rparr>,
        \<lparr>wiring = ''BDFHJLCPRTXVZNYEIWGAKMUSQO'', notch = CHR ''V'',
         ringSetting = 0, position = 2\<rparr>],
     plugboardPairs = []\<rparr>) \<and>
   map_sum id fst (process \<lparr>rotors =
       [\<lparr>wiring = ''EKMFLGDQVZNTOWYHXUSPAIBRCJ'', notch = CHR ''Q'',
         ringSetting = 0, position = 0\<rparr>,
        \<lparr>wiring = ''AJDKSIRUXBLHWTMCQGZNPYFVOE'', notch = CHR ''E'',
         ringSetting = 0, position = 0\<rparr>,
        \<lparr>wiring = ''BDFHJLCPRTXVZNYEIWGAKMUSQO'', notch = CHR ''V'',
         ringSetting = 0, position = 0\<rparr>],
     plugboardPairs = []\<rparr> [CHR ''A'', CHR 0xE9, CHR ''B'']) =
     Inr [CHR ''D'', CHR 0xC9, CHR ''M'']"
proof -
  have "CHR 0xDF \<notin> set alphabet" "CHR ''1'' \<notin> set alphabet" "CHR 0xE9 \<notin> set alphabet"
    by (simp_all add: alphabet_def)
  moreover have "valid_machine \<lparr>rotors =
       [\<lparr>wiring = ''EKMFLGDQVZNTOWYHXUSPAIBRCJ'', notch = CHR ''Q'',
         ringSetting = 0, position = 0\<rparr>,
        \<lparr>wiring = ''AJDKSIRUXBLHWTMCQGZNPYFVOE'', notch = CHR ''E'',
         ringSetting = 0, position = 0\<rparr>,
        \<lparr>wiring = ''BDFHJLCPRTXVZNYEIWGAKMUSQO'', notch = CHR ''V'',
         ringSetting = 0, position = 0\<rparr>],
     plugboardPairs = []\<rparr>"
    by (simp add: valid_machine_def valid_rotor_def catalog_rotor_def ROTORS_def
        in_range_def valid_plugboard_def alphabetic_pairs_def)
  moreover have "process \<lparr>rotors =
       [\<lparr>wiring = ''EKMFLGDQVZNTOWYHXUSPAIBRCJ'', notch = CHR ''Q'',
         ringSetting = 0, position = 0\<rparr>,
        \<lparr>wiring = ''AJDKSIRUXBLHWTMCQGZNPYFVOE'', notch = CHR ''E'',
         ringSetting = 0, position = 0\<rparr>,
        \<lparr>wiring = ''BDFHJLCPRTXVZNYEIWGAKMUSQO'', notch = CHR ''V'',
         ringSetting = 0, position = 0\<rparr>],
     plugboardPairs = []\<rparr> [CHR 0xDF, CHR ''1''] =
     Inr (''EY1'', \<lparr>rotors =
       [\<lparr>wiring = ''EKMFLGDQVZNTOWYHXUSPAIBRCJ'', notch = CHR ''Q'',
         ringSetting = 0, position = 0\<rparr>,
        \<lparr>wiring = ''AJDKSIRUXBLHWTMCQGZNPYFVOE'', notch = CHR ''E'',
         ringSetting = 0, position = 0\<rparr>,
        \<lparr>wiring = ''BDFHJLCPRTXVZNYEIWGAKMUSQO'', notch = CHR ''V'',
         ringSetting = 0, position = 2\<rparr>],
     plugboardPairs = []\<rparr>)"
    by code_simp
  moreover have "map_sum id fst (process \<lparr>rotors =
       [\<lparr>wiring = ''EKMFLGDQVZNTOWYHXUSPAIBRCJ'', notch = CHR ''Q'',
         ringSetting = 0, position = 0\<rparr>,
        \<lparr>wiring = ''AJDKSIRUXBLHWTMCQGZNPYFVOE'', notch = CHR ''E'',
         ringSetting = 0, position = 0\<rparr>,
        \<lparr>wiring = ''BDFHJLCPRTXVZNYEIWGAKMUSQO'', notch = CHR ''V'',
         ringSetting = 0, position = 0\<rparr>],
     plugboardPairs = []\<rparr> [CHR ''A'', CHR 0xE9, CHR ''B'']) =
     Inr [CHR ''D'', CHR 0xC9, CHR ''M'']"
    by code_simp
  ultimately show ?thesis by blast
qed

text \<open>
  C8. Processing is total over validated state: a machine built from a valid
  configuration is in a valid state; \<open>process\<close> on any text returns and leaves a valid
  state; whatever code units the uppercasing hands on, encrypting any sequence of
  code units returns one defined symbol for each and leaves a valid state;
  \<open>encryptChar\<close> on any character in any such state returns a defined symbol and a
  valid state; and for a letter entering any stage of the signal path the plugboard,
  each rotor's forward and backward lookup and the reflector lookup use an index
  inside the string they read and give a letter.
\<close>

theorem processing_total:
  assumes "valid_config ids ps rs pairs"
  shows "\<exists>e. new_Enigma ids ps rs pairs = Inr e \<and> valid_machine e \<and>
           (\<forall>text. \<exists>out e1. process e text = Inr (out, e1) \<and> valid_machine e1) \<and>
           (\<forall>cs. \<exists>ds e1.
              encryptChars e cs = Inr (map Some ds, e1) \<and> length ds = length cs \<and>
              valid_machine e1 \<and>
              (\<forall>c. \<exists>d e2. encryptChar e1 c = Inr (Some d, e2) \<and> valid_machine e2) \<and>
              (\<forall>v. is_letter v \<longrightarrow> lookups_in_bounds e1 v))"
proof -
  from new_Enigma_valid[OF assms] obtain e where
    e: "new_Enigma ids ps rs pairs = Inr e" "valid_machine e"
    by blast
  have p: "\<forall>text. \<exists>out e1. process e text = Inr (out, e1) \<and> valid_machine e1"
    using process_total[OF e(2)] by blast
  have "\<exists>ds e1.
              encryptChars e cs = Inr (map Some ds, e1) \<and> length ds = length cs \<and>
              valid_machine e1 \<and>
              (\<forall>c. \<exists>d e2. encryptChar e1 c = Inr (Some d, e2) \<and> valid_machine e2) \<and>
              (\<forall>v. is_letter v \<longrightarrow> lookups_in_bounds e1 v)" for cs
  proof -
    from encryptChars_valid[OF e(2), of cs] obtain ds e1 where
      h: "encryptChars e cs = Inr (map Some ds, e1)" "valid_machine e1"
         "length ds = length cs"
      by blast
    have "\<exists>d e2. encryptChar e1 c = Inr (Some d, e2) \<and> valid_machine e2" for c
      using encryptChar_valid[OF h(2), of c] by blast
    with h valid_machine_lookups[OF h(2)] show ?thesis by blast
  qed
  with e p show ?thesis by blast
qed

theorem processing_total_witness:
  "valid_config [0, 1, 2] [0, 0, 0] [0, 0, 0] [(CHR ''A'', CHR ''B'')] \<and>
   (\<exists>e out e0 ds e1 d e2.
      new_Enigma [0, 1, 2] [0, 0, 0] [0, 0, 0] [(CHR ''A'', CHR ''B'')] = Inr e \<and>
      process e ''Hello, World!'' = Inr (out, e0) \<and>
      encryptChars e [CHR ''S'', CHR ''S'', CHR ''1'', CHR 0xC9] = Inr (map Some ds, e1) \<and>
      length ds = 4 \<and>
      encryptChar e1 (CHR ''Q'') = Inr (Some d, e2) \<and>
      lookups_in_bounds e1 (Some (CHR ''Q'')))"
proof -
  have v: "valid_config [0, 1, 2] [0, 0, 0] [0, 0, 0] [(CHR ''A'', CHR ''B'')]"
    by (simp add: valid_config_def in_catalog_cases in_range_def valid_plugboard_def
        alphabetic_pairs_def alphabet_def)
  have q: "is_letter (Some (CHR ''Q''))" by (simp add: alphabet_def)
  from processing_total[OF v] obtain e where
    e: "new_Enigma [0, 1, 2] [0, 0, 0] [0, 0, 0] [(CHR ''A'', CHR ''B'')] = Inr e"
    and t: "\<forall>text. \<exists>out e1. process e text = Inr (out, e1) \<and> valid_machine e1"
    and u: "\<forall>cs. \<exists>ds e1.
              encryptChars e cs = Inr (map Some ds, e1) \<and> length ds = length cs \<and>
              valid_machine e1 \<and>
              (\<forall>c. \<exists>d e2. encryptChar e1 c = Inr (Some d, e2) \<and> valid_machine e2) \<and>
              (\<forall>v. is_letter v \<longrightarrow> lookups_in_bounds e1 v)"
    by blast
  from t[rule_format, of "''Hello, World!''"] obtain out e0 where
    p: "process e ''Hello, World!'' = Inr (out, e0)"
    by blast
  from u[rule_format, of "[CHR ''S'', CHR ''S'', CHR ''1'', CHR 0xC9]"] obtain ds e1 where
    r: "encryptChars e [CHR ''S'', CHR ''S'', CHR ''1'', CHR 0xC9] = Inr (map Some ds, e1)"
       "length ds = length [CHR ''S'', CHR ''S'', CHR ''1'', CHR 0xC9]"
    and c: "\<forall>c. \<exists>d e2. encryptChar e1 c = Inr (Some d, e2) \<and> valid_machine e2"
    and l: "\<forall>v. is_letter v \<longrightarrow> lookups_in_bounds e1 v"
    by blast
  from r(2) have n: "length ds = 4" by simp
  from c[rule_format, of "CHR ''Q''"] obtain d e2 where
    "encryptChar e1 (CHR ''Q'') = Inr (Some d, e2)" by blast
  moreover from l q have "lookups_in_bounds e1 (Some (CHR ''Q''))" by blast
  ultimately show ?thesis using v e p r(1) n by blast
qed



text \<open>
  C10. No letter encrypts to itself: for a machine built from a valid configuration, in
  every state it reaches by encrypting any sequence of characters, \<open>encryptChar\<close> on an
  uppercase letter \<open>c\<close> returns an uppercase letter different from \<open>c\<close>.
\<close>

theorem no_letter_encrypts_to_itself:
  assumes cfg: "valid_config ids ps rs pairs"
    and new: "new_Enigma ids ps rs pairs = Inr e"
    and reach: "encryptChars e cs = Inr (vs, e1)"
    and c: "c \<in> set alphabet"
  shows "\<exists>d e2. encryptChar e1 c = Inr (Some d, e2) \<and> d \<in> set alphabet \<and> d \<noteq> c"
proof -
  from new_Enigma_valid[OF cfg] new have "valid_machine e" by auto
  from encryptChars_valid[OF this, of cs] reach have "valid_machine e1" by auto
  from encryptChar_letter[OF this c] show ?thesis by blast
qed

theorem no_letter_encrypts_to_itself_witness:
  "valid_config [0, 1, 2] [0, 0, 0] [0, 0, 0] [] \<and>
   new_Enigma [0, 1, 2] [0, 0, 0] [0, 0, 0] [] = Inr \<lparr>rotors =
       [\<lparr>wiring = ''EKMFLGDQVZNTOWYHXUSPAIBRCJ'', notch = CHR ''Q'',
         ringSetting = 0, position = 0\<rparr>,
        \<lparr>wiring = ''AJDKSIRUXBLHWTMCQGZNPYFVOE'', notch = CHR ''E'',
         ringSetting = 0, position = 0\<rparr>,
        \<lparr>wiring = ''BDFHJLCPRTXVZNYEIWGAKMUSQO'', notch = CHR ''V'',
         ringSetting = 0, position = 0\<rparr>],
     plugboardPairs = []\<rparr> \<and>
   CHR ''A'' \<in> set alphabet \<and>
   (\<exists>vs e1 d e2.
      encryptChars \<lparr>rotors =
       [\<lparr>wiring = ''EKMFLGDQVZNTOWYHXUSPAIBRCJ'', notch = CHR ''Q'',
         ringSetting = 0, position = 0\<rparr>,
        \<lparr>wiring = ''AJDKSIRUXBLHWTMCQGZNPYFVOE'', notch = CHR ''E'',
         ringSetting = 0, position = 0\<rparr>,
        \<lparr>wiring = ''BDFHJLCPRTXVZNYEIWGAKMUSQO'', notch = CHR ''V'',
         ringSetting = 0, position = 0\<rparr>],
     plugboardPairs = []\<rparr> ''ENIGMA'' = Inr (vs, e1) \<and>
      encryptChar e1 (CHR ''A'') = Inr (Some d, e2) \<and> d \<in> set alphabet \<and>
      d \<noteq> CHR ''A'')"
proof -
  let ?e = "\<lparr>rotors =
       [\<lparr>wiring = ''EKMFLGDQVZNTOWYHXUSPAIBRCJ'', notch = CHR ''Q'',
         ringSetting = 0, position = 0\<rparr>,
        \<lparr>wiring = ''AJDKSIRUXBLHWTMCQGZNPYFVOE'', notch = CHR ''E'',
         ringSetting = 0, position = 0\<rparr>,
        \<lparr>wiring = ''BDFHJLCPRTXVZNYEIWGAKMUSQO'', notch = CHR ''V'',
         ringSetting = 0, position = 0\<rparr>],
     plugboardPairs = []\<rparr>"
  have v: "valid_config [0, 1, 2] [0, 0, 0] [0, 0, 0] []"
    by (simp add: valid_config_def in_catalog_cases in_range_def valid_plugboard_def
        alphabetic_pairs_def)
  have n: "new_Enigma [0, 1, 2] [0, 0, 0] [0, 0, 0] [] = Inr ?e"
    by (simp add: new_Enigma_def in_catalog_cases new_Rotor_def arg_or_zero_def
        ROTORS_def upt_rec)
  have a: "CHR ''A'' \<in> set alphabet" by (simp add: alphabet_def)
  have "valid_machine ?e" using new_Enigma_valid[OF v] n by auto
  from encryptChars_valid[OF this, of "''ENIGMA''"] obtain ds e1 where
    r: "encryptChars ?e ''ENIGMA'' = Inr (map Some ds, e1)"
    by blast
  from no_letter_encrypts_to_itself[OF v n r a] r v n a show ?thesis by blast
qed

end
